theory Spec2Isabelle
  imports Complex_Main "HOL-Library.Monad_Syntax"
begin

section \<open>The Gomoku position (gomoku.h)\<close>

text \<open>
  A move is a \<open>pair<int, int>\<close> (row, column). The C++ \<open>double\<close> values of the program
  (results, win totals, scores, times) are the real numbers they stand for, with the
  arithmetic that rounds them a parameter (see below), and its \<open>int\<close> counters are
  mathematical integers.

  The fields of \<open>GomokuState\<close> other than \<open>player_to_move\<close> are private: a state is built
  by the constructor and changed by \<open>do_move\<close> only. On the states that arise from moves
  taken from \<open>empty_places\<close>, as the search plays them, every access to \<open>board\<close> and to
  \<open>player_markers\<close> is within bounds; the functions below are meant for these states
  (elsewhere the C++ is undefined).
\<close>

type_synonym Move = "int \<times> int"

definition no_move :: Move where
  "no_move = (-1, -1)"

definition player_markers :: "char list" where
  "player_markers = [CHR ''.'', CHR ''X'', CHR ''O'']"

record GomokuState =
  player_to_move :: int
  num_rows :: int
  num_cols :: int
  board_size :: int
  board :: "char list list"
  last_col :: int
  last_row :: int
  empty_places :: "Move list"

text \<open>The constructor \<open>GomokuState(side_len_)\<close>: an empty square board, player 1 to move.\<close>

definition GomokuState_new :: "int \<Rightarrow> GomokuState" where
  "GomokuState_new side_len =
     \<lparr> GomokuState.player_to_move = 1,
       num_rows = side_len,
       num_cols = side_len,
       GomokuState.board_size = side_len * side_len,
       board = replicate (nat side_len) (replicate (nat side_len) (player_markers ! 0)),
       last_col = -1,
       last_row = -1,
       empty_places = concat (map (\<lambda>i. map (\<lambda>j. (i, j)) [0..side_len - 1]) [0..side_len - 1]) \<rparr>"

text \<open>
  \<open>do_move\<close>: mark the cell for the player to move, erase every occurrence of the move from
  \<open>empty_places\<close> (the erase-remove idiom), remember the cell, pass the turn.
\<close>

definition do_move :: "GomokuState \<Rightarrow> Move \<Rightarrow> GomokuState" where
  "do_move s mv =
     s\<lparr> board := (board s)[nat (fst mv) :=
                    (board s ! nat (fst mv))[nat (snd mv) :=
                       player_markers ! nat (GomokuState.player_to_move s)]],
        empty_places := removeAll mv (empty_places s),
        last_row := fst mv,
        last_col := snd mv,
        GomokuState.player_to_move := 3 - GomokuState.player_to_move s \<rparr>"

text \<open>
  Each counting loop of \<open>get_winner\<close> has the shape
  \<open>for (cell = first; in_range(cell) && board[cell] == piece; cell = next(cell)) n++\<close>.
  \<open>count_while\<close> is that loop over the cells the \<open>for\<close> statement visits in order.
\<close>

fun count_while :: "('a \<Rightarrow> bool) \<Rightarrow> 'a list \<Rightarrow> nat" where
  "count_while P [] = 0"
| "count_while P (x # xs) = (if P x then Suc (count_while P xs) else 0)"

definition get_winner :: "GomokuState \<Rightarrow> char" where
  "get_winner s =
     (if last_col s < 0 then player_markers ! 0
      else
        let piece = board s ! nat (last_row s) ! nat (last_col s);
            same = (\<lambda>(row, col). board s ! nat row ! nat col = piece);
            before_rows = rev [0..last_row s - 1];
            after_rows = [last_row s + 1..num_rows s - 1];
            before_cols = rev [0..last_col s - 1];
            after_cols = [last_col s + 1..num_cols s - 1];
            left = count_while same (map (\<lambda>col. (last_row s, col)) before_cols);
            right = count_while same (map (\<lambda>col. (last_row s, col)) after_cols)
        in if left + 1 + right \<ge> 5 then piece
        else
          let up = count_while same (map (\<lambda>row. (row, last_col s)) before_rows);
              down = count_while same (map (\<lambda>row. (row, last_col s)) after_rows)
          in if up + 1 + down \<ge> 5 then piece
          else
            let up = count_while same (zip before_rows before_cols);
                down = count_while same (zip after_rows after_cols)
            in if up + 1 + down \<ge> 5 then piece
            else
              let up = count_while same (zip after_rows before_cols);
                  down = count_while same (zip before_rows after_cols)
              in if up + 1 + down \<ge> 5 then piece
              else player_markers ! 0)"

definition has_moves :: "GomokuState \<Rightarrow> bool" where
  "has_moves s =
     (let winner = get_winner s
      in if winner \<noteq> player_markers ! 0 then False else empty_places s \<noteq> [])"

definition get_moves :: "GomokuState \<Rightarrow> Move list" where
  "get_moves s = (if get_winner s \<noteq> player_markers ! 0 then [] else empty_places s)"

definition get_result :: "GomokuState \<Rightarrow> int \<Rightarrow> real" where
  "get_result s current_player_to_move =
     (let winner = get_winner s
      in if winner = player_markers ! 0 then 0.5
         else if winner = player_markers ! nat current_player_to_move then 0.0
         else 1.0)"

text \<open>
  The random engine (\<open>std::mt19937_64\<close>) and \<open>std::uniform_int_distribution\<close> belong to the
  standard library, not to the repository, so sampling is a parameter: \<open>draw g n\<close> is what the
  distribution over \<open>n\<close> values makes of the engine state \<open>g\<close>, with the engine state after
  the draw. \<open>uniform_int\<close> reduces the value below \<open>n\<close>, the one thing the library promises
  about it; the engine built from a seed is represented by the seed. The program draws from
  non-empty lists only (\<open>do_random_move\<close> under \<open>has_moves\<close>, \<open>get_untried_move\<close> under
  \<open>has_untried_moves\<close>).
\<close>

definition uniform_int :: "('r \<Rightarrow> nat \<Rightarrow> nat \<times> 'r) \<Rightarrow> 'r \<Rightarrow> nat \<Rightarrow> nat \<times> 'r" where
  "uniform_int draw g n = (case draw g n of (k, g') \<Rightarrow> (k mod n, g'))"

definition do_random_move ::
  "('r \<Rightarrow> nat \<Rightarrow> nat \<times> 'r) \<Rightarrow> GomokuState \<Rightarrow> 'r \<Rightarrow> GomokuState \<times> 'r" where
  "do_random_move draw s g =
     (case uniform_int draw g (length (empty_places s)) of
        (idx, g') \<Rightarrow> (do_move s (empty_places s ! idx), g'))"

section \<open>Arithmetic on doubles\<close>

text \<open>
  The search computes two quantities in \<open>double\<close> arithmetic whose last bit decides
  comparisons: the score of a child in \<open>select_child_UCT\<close> and the expected success rate in
  \<open>compute_move\<close>. How the machine and the C library round (\<open>+\<close>, \<open>*\<close>, \<open>/\<close>, \<open>std::sqrt\<close>,
  \<open>std::log\<close> on doubles) is not part of the repository, so these five operations are a
  parameter \<open>fp\<close> of everything that uses them: each takes the doubles it is applied to and
  gives the double the program gets, as real numbers. Two doubles are tied in a comparison
  when they are the same double, whatever the exact values of the expressions they round.
  Conversions from \<open>int\<close> to \<open>double\<close> are exact, and so are the totals \<open>wins\<close>: sums of
  results 0, 0.5 and 1, one for each visit counted in an \<open>int\<close>.
\<close>

record double_ops =
  d_add :: "real \<Rightarrow> real \<Rightarrow> real"
  d_mul :: "real \<Rightarrow> real \<Rightarrow> real"
  d_div :: "real \<Rightarrow> real \<Rightarrow> real"
  d_sqrt :: "real \<Rightarrow> real"
  d_log :: "real \<Rightarrow> real"

section \<open>Search options and tree nodes (mcts.h)\<close>

record ComputeOptions =
  number_of_threads :: int
  number_of_repeat :: int
  iterations_param1 :: int
  iterations_param2 :: int
  max_iterations :: int
  top_n :: int
  board_size :: int
  max_time :: real
  verbose :: bool
  best_wins :: real
  best_visits :: int
  quit :: bool

definition ComputeOptions_new :: ComputeOptions where
  "ComputeOptions_new =
     \<lparr> number_of_threads = 8,
       number_of_repeat = 100,
       iterations_param1 = 10,
       iterations_param2 = 1000,
       max_iterations = 10000,
       top_n = 1,
       ComputeOptions.board_size = 15,
       max_time = -1.0,
       verbose = False,
       best_wins = 0,
       best_visits = 0,
       quit = False \<rparr>"

text \<open>
  Nodes live on the heap and point at each other (\<open>parent\<close>, \<open>children\<close>). The heap is a
  list of nodes, a pointer is an index into it, \<open>nullptr\<close> is \<open>None\<close>, and \<open>new Node\<close> appends.
  The root of a tree built by \<open>compute_tree\<close> is the first node allocated, at index 0.
\<close>

record Node =
  move :: Move
  parent :: "nat option"
  player_to_move :: int
  wins :: real
  visits :: int
  moves :: "Move list"
  children :: "nat list"
  UCT_score :: real

type_synonym node_store = "Node list"

definition Node_root :: "GomokuState \<Rightarrow> Node" where
  "Node_root state =
     \<lparr> move = no_move,
       parent = None,
       Node.player_to_move = GomokuState.player_to_move state,
       wins = 0,
       visits = 0,
       moves = get_moves state,
       children = [],
       UCT_score = 0 \<rparr>"

definition Node_child :: "GomokuState \<Rightarrow> Move \<Rightarrow> nat \<Rightarrow> Node" where
  "Node_child state mv par =
     \<lparr> move = mv,
       parent = Some par,
       Node.player_to_move = GomokuState.player_to_move state,
       wins = 0,
       visits = 0,
       moves = get_moves state,
       children = [],
       UCT_score = 0 \<rparr>"

definition has_untried_moves :: "Node \<Rightarrow> bool" where
  "has_untried_moves n = (moves n \<noteq> [])"

definition has_children :: "Node \<Rightarrow> bool" where
  "has_children n = (children n \<noteq> [])"

definition get_untried_move ::
  "('r \<Rightarrow> nat \<Rightarrow> nat \<times> 'r) \<Rightarrow> Node \<Rightarrow> 'r \<Rightarrow> Move \<times> 'r" where
  "get_untried_move draw n g =
     (case uniform_int draw g (length (moves n)) of (k, g') \<Rightarrow> (moves n ! k, g'))"

text \<open>
  \<open>std::max_element(first, last, lt)\<close> keeps the first of the largest elements: a later
  element replaces the current one only when the current one is strictly less. On an empty
  range it returns \<open>last\<close>, which the callers dereference: no value.
\<close>

fun max_element_from :: "('a \<Rightarrow> 'a \<Rightarrow> bool) \<Rightarrow> 'a \<Rightarrow> 'a list \<Rightarrow> 'a" where
  "max_element_from lt largest [] = largest"
| "max_element_from lt largest (x # xs) =
     max_element_from lt (if lt largest x then x else largest) xs"

definition max_element :: "('a \<Rightarrow> 'a \<Rightarrow> bool) \<Rightarrow> 'a list \<Rightarrow> 'a option" where
  "max_element lt xs =
     (case xs of [] \<Rightarrow> None | x # rest \<Rightarrow> Some (max_element_from lt x rest))"

text \<open>
  \<open>select_child_UCT\<close>: the first loop stores a score in every child, the second statement
  picks the first child with the largest stored score.
\<close>

definition set_UCT_score :: "double_ops \<Rightarrow> nat \<Rightarrow> node_store \<Rightarrow> nat \<Rightarrow> node_store" where
  "set_UCT_score fp this s child =
     s[child := (s ! child)\<lparr> UCT_score :=
         d_add fp
           (d_div fp (wins (s ! child)) (real_of_int (visits (s ! child))))
           (d_sqrt fp
              (d_div fp (d_mul fp 2.0 (d_log fp (real_of_int (visits (s ! this)))))
                 (real_of_int (visits (s ! child))))) \<rparr>]"

definition select_child_UCT ::
  "double_ops \<Rightarrow> node_store \<Rightarrow> nat \<Rightarrow> (node_store \<times> nat) option" where
  "select_child_UCT fp s this =
     (let s' = foldl (set_UCT_score fp this) s (children (s ! this))
      in map_option (\<lambda>best. (s', best))
           (max_element (\<lambda>a b. UCT_score (s' ! a) < UCT_score (s' ! b)) (children (s' ! this))))"

text \<open>
  \<open>add_child\<close>: allocate the child, append it to the children, erase the first occurrence of
  the move from the untried moves. (The caller passes a move taken from \<open>moves\<close>.)
\<close>

definition add_child :: "node_store \<Rightarrow> nat \<Rightarrow> Move \<Rightarrow> GomokuState \<Rightarrow> node_store \<times> nat" where
  "add_child s this mv state =
     (let node = length s;
          s1 = s @ [Node_child state mv this];
          s2 = s1[this := (s1 ! this)\<lparr> children := children (s1 ! this) @ [node] \<rparr>];
          s3 = s2[this := (s2 ! this)\<lparr> moves := remove1 mv (moves (s2 ! this)) \<rparr>]
      in (s3, node))"

definition update :: "node_store \<Rightarrow> nat \<Rightarrow> real \<Rightarrow> node_store" where
  "update s this result =
     s[this := (s ! this)\<lparr> visits := visits (s ! this) + 1, wins := wins (s ! this) + result \<rparr>]"

section \<open>Building one tree: \<open>compute_tree\<close>\<close>

text \<open>
  The parts of \<open>compute_tree\<close>. Whether following pointers comes to an end (the descent
  through \<open>select_child_UCT\<close>, the walk up the \<open>parent\<close> links), and whether the iteration
  loop itself does, depends on the heap and on the options, so these three are partial
  functions: \<open>None\<close> means that the call yields no value.
\<close>

partial_function (option) select_loop ::
  "double_ops \<Rightarrow> node_store \<Rightarrow> nat \<Rightarrow> GomokuState
     \<Rightarrow> (node_store \<times> nat \<times> GomokuState) option" where
  "select_loop fp s node state =
     (if \<not> has_untried_moves (s ! node) \<and> has_children (s ! node) then
        do {
          (s', node') \<leftarrow> select_child_UCT fp s node;
          select_loop fp s' node' (do_move state (move (s' ! node')))
        }
      else Some (s, node, state))"

text \<open>The expansion step: \<open>if (node->has_untried_moves()) { ... }\<close>.\<close>

definition expand ::
  "('r \<Rightarrow> nat \<Rightarrow> nat \<times> 'r) \<Rightarrow> node_store \<Rightarrow> nat \<Rightarrow> GomokuState \<Rightarrow> 'r
     \<Rightarrow> node_store \<times> nat \<times> GomokuState \<times> 'r" where
  "expand draw s node state g =
     (if has_untried_moves (s ! node) then
        (case get_untried_move draw (s ! node) g of
           (mv, g') \<Rightarrow>
             let state' = do_move state mv
             in (case add_child s node mv state' of (s', node') \<Rightarrow> (s', node', state', g')))
      else (s, node, state, g))"

text \<open>The random playout: \<open>while (state.has_moves()) state.do_random_move(&random_engine);\<close>\<close>

function play_out ::
  "('r \<Rightarrow> nat \<Rightarrow> nat \<times> 'r) \<Rightarrow> GomokuState \<Rightarrow> 'r \<Rightarrow> GomokuState \<times> 'r" where
  "play_out draw state g =
     (if has_moves state then
        (case do_random_move draw state g of (state', g') \<Rightarrow> play_out draw state' g')
      else (state, g))"
  by pat_completeness auto
termination
proof (relation "measure (\<lambda>(draw, state, g). length (empty_places state))")
  show "wf (measure (\<lambda>(draw, state, g). length (empty_places state)))"
    by simp
next
  fix draw :: "'r \<Rightarrow> nat \<Rightarrow> nat \<times> 'r" and state :: GomokuState and g :: 'r
    and state' :: GomokuState and g' :: 'r
  assume hm: "has_moves state"
    and x: "(state', g') = do_random_move draw state g"
  let ?es = "empty_places state"
  from hm have ne: "?es \<noteq> []"
    by (simp add: has_moves_def Let_def split: if_splits)
  obtain k g0 where d: "draw g (length ?es) = (k, g0)"
    by (cases "draw g (length ?es)")
  from ne have lt: "k mod length ?es < length ?es"
    by simp
  from x d have st: "state' = do_move state (?es ! (k mod length ?es))"
    by (simp add: do_random_move_def uniform_int_def)
  from lt have "?es ! (k mod length ?es) \<in> set ?es"
    by (rule nth_mem)
  then have "length (removeAll (?es ! (k mod length ?es)) ?es) < length ?es"
    by (rule length_removeAll_less)
  with st have "length (empty_places state') < length ?es"
    by (simp add: do_move_def)
  then show "((draw, state', g'), (draw, state, g))
      \<in> measure (\<lambda>(draw, state, g). length (empty_places state))"
    by simp
qed

declare play_out.simps [simp del]

text \<open>
  Backpropagation: \<open>while (node != nullptr) { node->update(...); node = node->parent; }\<close>
\<close>

partial_function (option) backpropagate ::
  "node_store \<Rightarrow> GomokuState \<Rightarrow> nat option \<Rightarrow> node_store option" where
  "backpropagate s state node =
     (case node of
        None \<Rightarrow> Some s
      | Some n \<Rightarrow>
          let s' = update s n (get_result state (Node.player_to_move (s ! n)))
          in backpropagate s' state (parent (s' ! n)))"

text \<open>One pass through the body of the \<open>for\<close> loop, up to the end of backpropagation.\<close>

definition iteration ::
  "double_ops \<Rightarrow> ('r \<Rightarrow> nat \<Rightarrow> nat \<times> 'r) \<Rightarrow> GomokuState \<Rightarrow> node_store \<Rightarrow> 'r
     \<Rightarrow> (node_store \<times> 'r) option" where
  "iteration fp draw root_state s g =
     do {
       (s1, node1, state1) \<leftarrow> select_loop fp s 0 root_state;
       (case expand draw s1 node1 state1 g of
          (s2, node2, state2, g2) \<Rightarrow>
            (case play_out draw state2 g2 of
               (state3, g3) \<Rightarrow>
                 do {
                   s4 \<leftarrow> backpropagate s2 state3 (Some node2);
                   Some (s4, g3)
                 }))
     }"

text \<open>
  The \<open>for\<close> loop. \<open>use_openmp\<close> says whether the unit is compiled with \<open>USE_OPENMP\<close>
  (\<open>gomoku.cpp\<close> defines it); \<open>elapsed iter\<close> is the value of \<open>time - start_time\<close> read from
  \<open>omp_get_wtime\<close> at the end of iteration \<open>iter\<close>. Printing is left out.
\<close>

partial_function (option) tree_loop ::
  "double_ops \<Rightarrow> bool \<Rightarrow> (int \<Rightarrow> real) \<Rightarrow> ('r \<Rightarrow> nat \<Rightarrow> nat \<times> 'r) \<Rightarrow> GomokuState \<Rightarrow> ComputeOptions
     \<Rightarrow> int \<Rightarrow> node_store \<Rightarrow> 'r \<Rightarrow> node_store option" where
  "tree_loop fp use_openmp elapsed draw root_state options iter s g =
     (if iter \<le> max_iterations options \<or> max_iterations options < 0 then
        do {
          (s', g') \<leftarrow> iteration fp draw root_state s g;
          if use_openmp \<and> (verbose options \<or> max_time options \<ge> 0)
               \<and> elapsed iter \<ge> max_time options
          then Some s'
          else tree_loop fp use_openmp elapsed draw root_state options (iter + 1) s' g'
        }
      else Some s)"

datatype error = runtime_error

text \<open>
  \<open>compute_tree\<close> returns the heap that holds the tree, the root at index 0; it throws
  (\<open>Inl\<close>) when a time limit is asked for in a build without \<open>USE_OPENMP\<close>.
\<close>

definition compute_tree ::
  "double_ops \<Rightarrow> bool \<Rightarrow> (int \<Rightarrow> real) \<Rightarrow> ('r \<Rightarrow> nat \<Rightarrow> nat \<times> 'r) \<Rightarrow> GomokuState \<Rightarrow> ComputeOptions \<Rightarrow> 'r
     \<Rightarrow> (error + node_store) option" where
  "compute_tree fp use_openmp elapsed draw root_state options initial_seed =
     (if max_time options \<ge> 0 \<and> \<not> use_openmp then Some (Inl runtime_error)
      else map_option Inr
             (tree_loop fp use_openmp elapsed draw root_state options 1 [Node_root root_state]
                initial_seed))"

section \<open>Merging the trees and choosing the move: \<open>compute_move\<close>\<close>

text \<open>
  A \<open>std::map<Move, V>\<close> is a list of (key, value) pairs in increasing key order, the order in
  which the map is iterated; keys are compared as \<open>std::pair\<close> compares them. \<open>map_accumulate\<close> is
  \<open>m[key] += x\<close> (a missing key starts from zero) and \<open>map_at\<close> reads \<open>m[key]\<close>.
\<close>

definition move_less :: "Move \<Rightarrow> Move \<Rightarrow> bool" where
  "move_less a b = (fst a < fst b \<or> (\<not> fst b < fst a \<and> snd a < snd b))"

fun map_accumulate :: "(Move \<times> 'v::{zero,plus}) list \<Rightarrow> Move \<Rightarrow> 'v \<Rightarrow> (Move \<times> 'v) list" where
  "map_accumulate [] key x = [(key, 0 + x)]"
| "map_accumulate ((k, y) # rest) key x =
     (if move_less key k then (key, 0 + x) # (k, y) # rest
      else if move_less k key then (k, y) # map_accumulate rest key x
      else (k, y + x) # rest)"

fun map_at :: "(Move \<times> 'v::zero) list \<Rightarrow> Move \<Rightarrow> 'v" where
  "map_at [] key = 0"
| "map_at ((k, y) # rest) key =
     (if move_less key k then 0
      else if move_less k key then map_at rest key
      else y)"

type_synonym merged = "(Move \<times> int) list \<times> (Move \<times> real) list \<times> int"

definition merge_child :: "node_store \<Rightarrow> merged \<Rightarrow> nat \<Rightarrow> merged" where
  "merge_child root_store acc child =
     (case acc of
        (vmap, wmap, games_played) \<Rightarrow>
          (map_accumulate vmap (move (root_store ! child)) (visits (root_store ! child)),
           map_accumulate wmap (move (root_store ! child)) (wins (root_store ! child)),
           games_played))"

definition merge_root :: "merged \<Rightarrow> node_store \<Rightarrow> merged" where
  "merge_root acc root_store =
     (case acc of
        (vmap, wmap, games_played) \<Rightarrow>
          foldl (merge_child root_store) (vmap, wmap, games_played + visits (root_store ! 0))
            (children (root_store ! 0)))"

definition merge_roots :: "node_store list \<Rightarrow> merged" where
  "merge_roots roots = foldl merge_root ([], [], 0) roots"

text \<open>The final loop over the merged visits, from \<open>best_score = -1\<close> and \<open>best_move = Move()\<close>.\<close>

definition best_step ::
  "double_ops \<Rightarrow> (Move \<times> real) list \<Rightarrow> real \<times> Move \<Rightarrow> Move \<times> int \<Rightarrow> real \<times> Move" where
  "best_step fp wmap best itr =
     (case best of
        (best_score, best_move) \<Rightarrow>
          let mv = fst itr;
              v = real_of_int (snd itr);
              w = map_at wmap mv;
              rate = d_div fp (d_add fp w 1) (d_add fp v 2)
          in if rate > best_score then (rate, mv)
             else (best_score, best_move))"

definition select_best :: "double_ops \<Rightarrow> (Move \<times> int) list \<Rightarrow> (Move \<times> real) list \<Rightarrow> Move" where
  "select_best fp vmap wmap = snd (foldl (best_step fp wmap) (-1, (0, 0)) vmap)"

text \<open>
  Collecting the futures: \<open>get()\<close> waits for each job in turn and rethrows what the job threw.
\<close>

fun collect_roots :: "(error + node_store) list \<Rightarrow> error + node_store list" where
  "collect_roots [] = Inr []"
| "collect_roots (Inl e # rest) = Inl e"
| "collect_roots (Inr r # rest) =
     (case collect_roots rest of Inl e \<Rightarrow> Inl e | Inr rs \<Rightarrow> Inr (r # rs))"

text \<open>
  \<open>compute_move\<close>. The jobs share nothing but the constants \<open>root_state\<close>, \<open>job_options\<close> and
  \<open>seed\<close>, so each yields what \<open>compute_tree\<close> yields on them; job \<open>t\<close> reads its own clock
  \<open>elapsed t\<close>. \<open>seed\<close> is the value taken from \<open>std::random_device\<close>.
\<close>

definition compute_move ::
  "double_ops \<Rightarrow> bool \<Rightarrow> (nat \<Rightarrow> int \<Rightarrow> real) \<Rightarrow> ('r \<Rightarrow> nat \<Rightarrow> nat \<times> 'r) \<Rightarrow> 'r \<Rightarrow> GomokuState \<Rightarrow> ComputeOptions
     \<Rightarrow> (error + Move) option" where
  "compute_move fp use_openmp elapsed draw seed root_state options =
     (let mvs = get_moves root_state
      in if length mvs = 1 then Some (Inr (mvs ! 0))
         else
           let job_options = options\<lparr> verbose := False \<rparr>
           in do {
                results \<leftarrow> those (map (\<lambda>t. compute_tree fp use_openmp (elapsed t) draw root_state
                                           job_options seed)
                                     [0..<nat (number_of_threads options)]);
                (case collect_roots results of
                   Inl e \<Rightarrow> Some (Inl e)
                 | Inr roots \<Rightarrow>
                     (case merge_roots roots of
                        (vmap, wmap, games_played) \<Rightarrow> Some (Inr (select_best fp vmap wmap))))
              })"

section \<open>Notions used to state the properties\<close>

text \<open>
  Two heaps hold the same nodes when they differ at most in the scratch field \<open>UCT_score\<close>.
\<close>

definition same_nodes :: "node_store \<Rightarrow> node_store \<Rightarrow> bool" where
  "same_nodes s s' \<longleftrightarrow>
     length s' = length s \<and> (\<forall>i<length s. s' ! i = (s ! i)\<lparr> UCT_score := UCT_score (s' ! i) \<rparr>)"

text \<open>
  Two heaps have the same links when they differ at most in the statistics and scores of
  their nodes.
\<close>

definition same_links :: "node_store \<Rightarrow> node_store \<Rightarrow> bool" where
  "same_links s s' \<longleftrightarrow>
     length s' = length s \<and>
     (\<forall>i<length s. move (s' ! i) = move (s ! i) \<and> parent (s' ! i) = parent (s ! i)
        \<and> Node.player_to_move (s' ! i) = Node.player_to_move (s ! i)
        \<and> moves (s' ! i) = moves (s ! i) \<and> children (s' ! i) = children (s ! i))"

text \<open>
  The shape of the heap while \<open>compute_tree\<close> runs on \<open>root_state\<close>: the root is node 0 and
  stores the player to move in \<open>root_state\<close>; every other node was allocated after its parent,
  is listed among its parent's children and stores the other player than its parent does;
  the children of a node are distinct nodes of the heap that point back to it.
\<close>

definition tree_inv :: "GomokuState \<Rightarrow> node_store \<Rightarrow> bool" where
  "tree_inv root_state s \<longleftrightarrow>
     s \<noteq> [] \<and>
     Node.player_to_move (s ! 0) = GomokuState.player_to_move root_state \<and>
     (\<forall>i<length s.
        (case parent (s ! i) of
           None \<Rightarrow> i = 0
         | Some p \<Rightarrow> p < i \<and> i \<in> set (children (s ! p))
                      \<and> Node.player_to_move (s ! i) = 3 - Node.player_to_move (s ! p))) \<and>
     (\<forall>i<length s. distinct (children (s ! i))
        \<and> (\<forall>c\<in>set (children (s ! i)). c < length s \<and> parent (s ! c) = Some i))"

text \<open>
  \<open>on_path s n i\<close>: node \<open>i\<close> is met when walking from node \<open>n\<close> up the \<open>parent\<close> links, \<open>n\<close>
  included: the nodes backpropagation from \<open>n\<close> passes through.
\<close>

inductive on_path :: "node_store \<Rightarrow> nat \<Rightarrow> nat \<Rightarrow> bool" for s :: node_store where
  here: "on_path s n n"
| up: "parent (s ! n) = Some p \<Longrightarrow> on_path s p i \<Longrightarrow> on_path s n i"

text \<open>The visits of the direct children of the root, added up.\<close>

definition root_children_visits :: "node_store \<Rightarrow> int" where
  "root_children_visits s = (\<Sum>c\<leftarrow>children (s ! 0). visits (s ! c))"

text \<open>
  The score of a child, \<open>wins / visits + sqrt (2 * ln (this.visits) / visits)\<close>, as the program
  computes it in doubles.
\<close>

definition UCT_value :: "double_ops \<Rightarrow> node_store \<Rightarrow> nat \<Rightarrow> nat \<Rightarrow> real" where
  "UCT_value fp s this child =
     d_add fp
       (d_div fp (wins (s ! child)) (real_of_int (visits (s ! child))))
       (d_sqrt fp
          (d_div fp (d_mul fp 2 (d_log fp (real_of_int (visits (s ! this)))))
             (real_of_int (visits (s ! child)))))"

text \<open>
  What the direct children of the root of one tree say about a move: their visit counts and
  win totals, zero when the root has no child for the move.
\<close>

definition child_visits_of :: "node_store \<Rightarrow> Move \<Rightarrow> int" where
  "child_visits_of r m = (\<Sum>c\<leftarrow>children (r ! 0). if move (r ! c) = m then visits (r ! c) else 0)"

definition child_wins_of :: "node_store \<Rightarrow> Move \<Rightarrow> real" where
  "child_wins_of r m = (\<Sum>c\<leftarrow>children (r ! 0). if move (r ! c) = m then wins (r ! c) else 0)"

text \<open>
  The expected success rate \<open>(wins + 1) / (visits + 2)\<close> of an entry of the merged visits, as
  the program computes it in doubles.
\<close>

definition expected_success_rate :: "double_ops \<Rightarrow> (Move \<times> real) list \<Rightarrow> Move \<times> int \<Rightarrow> real" where
  "expected_success_rate fp wmap e =
     d_div fp (d_add fp (map_at wmap (fst e)) 1) (d_add fp (real_of_int (snd e)) 2)"

text \<open>
  What the statements below need of the rounding: a sum of a non-negative and a positive
  double is positive, and a quotient of a non-negative by a positive double is not negative.
\<close>

definition keeps_sign :: "double_ops \<Rightarrow> bool" where
  "keeps_sign fp \<longleftrightarrow>
     (\<forall>a b. 0 \<le> a \<and> 0 < b \<longrightarrow> 0 < d_add fp a b) \<and>
     (\<forall>a b. 0 \<le> a \<and> 0 < b \<longrightarrow> 0 \<le> d_div fp a b)"

section \<open>Concrete positions and runs\<close>

text \<open>
  The operations without rounding error, an arithmetic that keeps signs. It is used for the two
  concrete selections below, among the children of \<open>small_tree\<close> and among the merged
  statistics, where the values compared are far enough apart for the rounding of a machine
  not to matter. The concrete runs of \<open>compute_tree\<close> and \<open>compute_move\<close> are stated for
  every arithmetic.
\<close>

definition double_exact :: double_ops where
  "double_exact =
     \<lparr> d_add = (\<lambda>a b. a + b),
       d_mul = (\<lambda>a b. a * b),
       d_div = (\<lambda>a b. a / b),
       d_sqrt = sqrt,
       d_log = ln \<rparr>"

text \<open>
  A finished game on a 5 by 5 board: player 1 (X) fills row 0 while player 2 (O) answers in
  row 1; the ninth move (0, 4) completes five in a row for X.
\<close>

definition finished_game :: GomokuState where
  "finished_game =
     foldl do_move (GomokuState_new 5)
       [(0, 0), (1, 0), (0, 1), (1, 1), (0, 2), (1, 2), (0, 3), (1, 3), (0, 4)]"

text \<open>
  A root visited twice with two children visited once each, the second of which has won its
  playout; and merged statistics for three moves.
\<close>

definition small_tree :: node_store where
  "small_tree =
     [ (Node_root (GomokuState_new 3))\<lparr> visits := 2, wins := 1, moves := [(0, 2)], children := [1, 2] \<rparr>,
       (Node_child (do_move (GomokuState_new 3) (0, 0)) (0, 0) 0)\<lparr> visits := 1, wins := 0 \<rparr>,
       (Node_child (do_move (GomokuState_new 3) (0, 1)) (0, 1) 0)\<lparr> visits := 1, wins := 1 \<rparr> ]"

definition merged_visits :: "(Move \<times> int) list" where
  "merged_visits = [((0, 0), 3), ((0, 1), 3), ((1, 0), 5)]"

definition merged_wins :: "(Move \<times> real) list" where
  "merged_wins = [((0, 0), 1), ((0, 1), 5 / 2), ((1, 0), 4)]"


text \<open>
  The expansion made by the first iteration of \<open>compute_tree\<close> on the empty 3 by 3 board
  (the descent stops at the root, which has untried moves), with a sampling function that
  returns the engine state and increments it.
\<close>

definition first_expansion :: "node_store \<times> nat \<times> GomokuState \<times> nat" where
  "first_expansion =
     expand (\<lambda>g n. (g, g + 1)) [Node_root (GomokuState_new 3)] 0 (GomokuState_new 3) 0"

section \<open>The result of a finished game\<close>

lemma get_result_cases:
  "get_result s p =
     (if get_winner s = player_markers ! 0 then 1 / 2
      else if get_winner s = player_markers ! nat p then 0 else 1)"
  by (simp add: get_result_def Let_def)

lemma player_markers_distinct:
  assumes "p = 1 \<or> p = 2"
  shows "player_markers ! nat p \<noteq> player_markers ! 0"
    and "player_markers ! nat (3 - p) \<noteq> player_markers ! 0"
    and "player_markers ! nat (3 - p) \<noteq> player_markers ! nat p"
  using assms by (auto simp: player_markers_def)

lemma finished_game_winner: "get_winner finished_game = CHR ''X''"
  unfolding finished_game_def by code_simp

lemma finished_game_no_moves: "\<not> has_moves finished_game" "get_moves finished_game = []"
  unfolding finished_game_def by code_simp+

lemma finished_game_board:
  "board finished_game = [''XXXXX'', ''OOOO.'', ''.....'', ''.....'', ''.....'']"
  unfolding finished_game_def by code_simp

text \<open>
  Claim C2, as amended. For a player \<open>p\<close> in {1, 2}, \<open>get_result(p)\<close> is 0.0 exactly when the
  winner found by \<open>get_winner\<close> is \<open>p\<close>'s own marker, 0.5 exactly when there is no winner, and
  1.0 when the winner is the marker of the other player \<open>3 - p\<close>: the argument names the
  player who is to move in the final position, and the value is the outcome for the opponent
  of that player (\<open>main\<close> reads \<open>get_result(2) == 1.0\<close> as "Player 1 wins").
\<close>

theorem get_result_viewpoint:
  assumes "p = 1 \<or> p = 2"
  shows "(get_result s p = 0 \<longleftrightarrow> get_winner s = player_markers ! nat p)
       \<and> (get_result s p = 1 / 2 \<longleftrightarrow> get_winner s = player_markers ! 0)
       \<and> (get_winner s = player_markers ! nat (3 - p) \<longrightarrow> get_result s p = 1)"
  using player_markers_distinct[OF assms] by (auto simp: get_result_cases)

theorem get_result_viewpoint_witness:
  "(1 = (1::int) \<or> 1 = (2::int)) \<and> get_winner finished_game = player_markers ! nat 1
     \<and> get_result finished_game 1 = 0"
  using get_result_viewpoint[of 1 finished_game] finished_game_winner
  by (simp add: player_markers_def)

text \<open>
  Claim C2 as stated fails: in \<open>finished_game\<close> the game is over and player 1 has won, and
  \<open>get_result(1)\<close> is 0.0, not 1.0.
\<close>

theorem get_result_winner_counterexample:
  "\<not> has_moves finished_game \<and> get_winner finished_game = player_markers ! nat 1
     \<and> get_result finished_game 1 \<noteq> 1"
  using finished_game_winner finished_game_no_moves
  by (simp add: get_result_cases player_markers_def)

section \<open>The single legal move\<close>

lemma one_cell_moves: "get_moves (GomokuState_new 1) = [(0, 0)]"
  by code_simp

text \<open>
  Claim C4. When the root position has exactly one legal move, \<open>compute_move\<close> returns that
  move, whatever the options, the clocks, the sampling function and the seed are: also for
  options under which a job would throw or never stop, so no job is run.
\<close>

theorem compute_move_single_move:
  assumes "length (get_moves root_state) = 1"
  shows "compute_move fp use_openmp elapsed draw seed root_state options
           = Some (Inr (get_moves root_state ! 0))"
  using assms by (simp add: compute_move_def Let_def)

theorem compute_move_single_move_witness:
  "\<forall>fp. length (get_moves (GomokuState_new 1)) = 1
     \<and> compute_move fp False (\<lambda>t i. 0) (\<lambda>g n. (g, g)) (0::nat) (GomokuState_new 1)
         (ComputeOptions_new\<lparr> max_iterations := - 1, max_time := 5 \<rparr>) = Some (Inr (0, 0))"
  using compute_move_single_move[of "GomokuState_new 1" _ False "\<lambda>t i. 0"
      "\<lambda>g n. (g, g)" "0::nat"
      "ComputeOptions_new\<lparr> max_iterations := - 1, max_time := 5 \<rparr>"]
  by (simp add: one_cell_moves)

section \<open>Merging the roots\<close>

lemma move_less_irrefl: "\<not> move_less a a"
  by (simp add: move_less_def)

lemma move_less_trans: "move_less a b \<Longrightarrow> move_less b c \<Longrightarrow> move_less a c"
  by (auto simp: move_less_def)

lemma move_less_asym: "move_less a b \<Longrightarrow> \<not> move_less b a"
  by (auto simp: move_less_def)

lemma move_less_total: "\<not> move_less a b \<Longrightarrow> \<not> move_less b a \<Longrightarrow> a = b"
  by (auto simp: move_less_def prod_eq_iff)

lemma map_accumulate_keys: "fst ` set (map_accumulate m key x) = insert key (fst ` set m)"
  by (induction m key x rule: map_accumulate.induct) (auto dest: move_less_total)

lemma map_accumulate_mem:
  "e \<in> set (map_accumulate m key x) \<Longrightarrow> fst e = key \<or> e \<in> set m"
  by (induction m key x rule: map_accumulate.induct)
     (auto split: if_splits dest: move_less_total)

lemma map_accumulate_sorted:
  "sorted_wrt move_less (map fst m) \<Longrightarrow> sorted_wrt move_less (map fst (map_accumulate m key x))"
proof (induction m key x rule: map_accumulate.induct)
  case (1 key x)
  then show ?case by simp
next
  case (2 k y rest key x)
  show ?case
  proof (cases "move_less key k")
    case True
    with 2 show ?thesis by (auto intro: move_less_trans)
  next
    case False
    show ?thesis
    proof (cases "move_less k key")
      case True
      have "move_less k (fst e)" if "e \<in> set (map_accumulate rest key x)" for e
        using map_accumulate_mem[OF that] True 2(2) by auto
      with 2 True False show ?thesis by auto
    next
      case F2: False
      with 2 False show ?thesis by auto
    qed
  qed
qed

lemma map_at_above:
  "\<forall>e\<in>set m. move_less key (fst e) \<Longrightarrow> map_at m key = 0"
  by (cases m) auto

lemma map_at_map_accumulate:
  fixes m :: "(Move \<times> 'v::monoid_add) list"
  assumes "sorted_wrt move_less (map fst m)"
  shows "map_at (map_accumulate m key x) k' = (if k' = key then map_at m key + x else map_at m k')"
  using assms
proof (induction m key x rule: map_accumulate.induct)
  case (1 key x)
  then show ?case by (auto simp: move_less_irrefl dest: move_less_total)
next
  case (2 k y rest key x)
  then show ?case
    by (auto simp: move_less_irrefl dest: move_less_total move_less_asym move_less_trans)
qed


lemma merge_child_fold:
  assumes "foldl (merge_child r) (vm, wm, gp) cs = (vm', wm', gp')"
    and "sorted_wrt move_less (map fst vm)" and "sorted_wrt move_less (map fst wm)"
  shows "sorted_wrt move_less (map fst vm') \<and> sorted_wrt move_less (map fst wm') \<and> gp' = gp
       \<and> (\<forall>m. map_at vm' m = map_at vm m + (\<Sum>c\<leftarrow>cs. if move (r ! c) = m then visits (r ! c) else 0))
       \<and> (\<forall>m. map_at wm' m = map_at wm m + (\<Sum>c\<leftarrow>cs. if move (r ! c) = m then wins (r ! c) else 0))
       \<and> fst ` set vm' = fst ` set vm \<union> (\<lambda>c. move (r ! c)) ` set cs
       \<and> fst ` set wm' = fst ` set wm \<union> (\<lambda>c. move (r ! c)) ` set cs"
  using assms
proof (induction cs arbitrary: vm wm gp)
  case Nil
  then show ?case by simp
next
  case (Cons c cs)
  let ?vm1 = "map_accumulate vm (move (r ! c)) (visits (r ! c))"
  let ?wm1 = "map_accumulate wm (move (r ! c)) (wins (r ! c))"
  have "merge_child r (vm, wm, gp) c = (?vm1, ?wm1, gp)"
    by (simp add: merge_child_def)
  with Cons.prems(1) have f: "foldl (merge_child r) (?vm1, ?wm1, gp) cs = (vm', wm', gp')"
    by simp
  have s1: "sorted_wrt move_less (map fst ?vm1)" "sorted_wrt move_less (map fst ?wm1)"
    using Cons.prems(2,3) by (simp_all add: map_accumulate_sorted)
  note ih = Cons.IH[OF f s1]
  have v: "map_at ?vm1 m = map_at vm m + (if move (r ! c) = m then visits (r ! c) else 0)" for m
    using Cons.prems(2) by (simp add: map_at_map_accumulate)
  have w: "map_at ?wm1 m = map_at wm m + (if move (r ! c) = m then wins (r ! c) else 0)" for m
    using Cons.prems(3) by (simp add: map_at_map_accumulate)
  show ?case
    using ih by (simp add: v w map_accumulate_keys add.assoc) 
qed

lemma merge_root_fold:
  assumes "foldl merge_root (vm, wm, gp) roots = (vm', wm', gp')"
    and "sorted_wrt move_less (map fst vm)" and "sorted_wrt move_less (map fst wm)"
  shows "gp' = gp + (\<Sum>r\<leftarrow>roots. visits (r ! 0))
       \<and> (\<forall>m. map_at vm' m = map_at vm m + (\<Sum>r\<leftarrow>roots. child_visits_of r m))
       \<and> (\<forall>m. map_at wm' m = map_at wm m + (\<Sum>r\<leftarrow>roots. child_wins_of r m))
       \<and> fst ` set vm' = fst ` set vm \<union> (\<Union>r\<in>set roots. (\<lambda>c. move (r ! c)) ` set (children (r ! 0)))
       \<and> fst ` set wm' = fst ` set wm \<union> (\<Union>r\<in>set roots. (\<lambda>c. move (r ! c)) ` set (children (r ! 0)))"
  using assms
proof (induction roots arbitrary: vm wm gp)
  case Nil
  then show ?case by simp
next
  case (Cons r roots)
  obtain vm1 wm1 gp1 where m1: "merge_root (vm, wm, gp) r = (vm1, wm1, gp1)"
    by (cases "merge_root (vm, wm, gp) r") auto
  then have "foldl (merge_child r) (vm, wm, gp + visits (r ! 0)) (children (r ! 0)) = (vm1, wm1, gp1)"
    by (simp add: merge_root_def)
  note c = merge_child_fold[OF this Cons.prems(2,3)]
  from Cons.prems(1) m1 have f: "foldl merge_root (vm1, wm1, gp1) roots = (vm', wm', gp')"
    by simp
  from c have s1: "sorted_wrt move_less (map fst vm1)" "sorted_wrt move_less (map fst wm1)"
    by simp_all
  note ih = Cons.IH[OF f s1]
  show ?case
    using ih c by (simp add: child_visits_of_def child_wins_of_def add.assoc Un_assoc)
qed

lemma merge_roots_sums:
  assumes "merge_roots roots = (vmap, wmap, games_played)"
  shows "map_at vmap m = (\<Sum>r\<leftarrow>roots. child_visits_of r m)"
    and "map_at wmap m = (\<Sum>r\<leftarrow>roots. child_wins_of r m)"
    and "games_played = (\<Sum>r\<leftarrow>roots. visits (r ! 0))"
    and "fst ` set vmap = (\<Union>r\<in>set roots. (\<lambda>c. move (r ! c)) ` set (children (r ! 0)))"
    and "fst ` set wmap = fst ` set vmap"
proof -
  from assms have f: "foldl merge_root ([], [], 0) roots = (vmap, wmap, games_played)"
    by (simp add: merge_roots_def)
  have s: "sorted_wrt move_less (map fst ([] :: (Move \<times> int) list))"
    "sorted_wrt move_less (map fst ([] :: (Move \<times> real) list))"
    by simp_all
  note r = merge_root_fold[OF f s]
  from r show "map_at vmap m = (\<Sum>r\<leftarrow>roots. child_visits_of r m)"
    by (simp del: split_paired_All)
  from r show "map_at wmap m = (\<Sum>r\<leftarrow>roots. child_wins_of r m)"
    by (simp del: split_paired_All)
  from r show "games_played = (\<Sum>r\<leftarrow>roots. visits (r ! 0))"
    by simp
  from r show "fst ` set vmap = (\<Union>r\<in>set roots. (\<lambda>c. move (r ! c)) ` set (children (r ! 0)))"
    by simp
  from r show "fst ` set wmap = fst ` set vmap"
    by simp
qed


text \<open>
  Claim C6. After merging the trees \<open>roots\<close>, the merged visits and wins of every move are the
  sums over all roots of what the root's direct children for that move hold (nothing for a
  root without such a child), the merged keys are the moves of the roots' children, and
  \<open>games_played\<close> is the sum of the roots' visit counts.
\<close>

theorem merge_roots_correct:
  "case merge_roots roots of
     (vmap, wmap, games_played) \<Rightarrow>
       (\<forall>m. map_at vmap m = (\<Sum>r\<leftarrow>roots. child_visits_of r m)
           \<and> map_at wmap m = (\<Sum>r\<leftarrow>roots. child_wins_of r m))
       \<and> fst ` set vmap = (\<Union>r\<in>set roots. (\<lambda>c. move (r ! c)) ` set (children (r ! 0)))
       \<and> fst ` set wmap = fst ` set vmap
       \<and> games_played = (\<Sum>r\<leftarrow>roots. visits (r ! 0))"
proof -
  obtain vmap wmap games_played where m: "merge_roots roots = (vmap, wmap, games_played)"
    by (cases "merge_roots roots") auto
  show ?thesis
    unfolding m using merge_roots_sums[OF m] by (simp del: split_paired_All)
qed

theorem merge_roots_correct_witness:
  "merge_roots [small_tree, small_tree] = ([((0, 0), 2), ((0, 1), 2)], [((0, 0), 0), ((0, 1), 2)], 4)
     \<and> (\<Sum>r\<leftarrow>[small_tree, small_tree]. child_wins_of r (0, 1)) = 2
     \<and> (\<Sum>r\<leftarrow>[small_tree, small_tree]. child_visits_of r (1, 1)) = 0"
proof -
  have m: "merge_roots [small_tree, small_tree]
             = ([((0, 0), 2), ((0, 1), 2)], [((0, 0), 0), ((0, 1), 2)], 4)"
    by (simp add: merge_roots_def merge_root_def merge_child_def small_tree_def Node_child_def
        Node_root_def move_less_def)
  from merge_roots_correct[of "[small_tree, small_tree]"]
  have sums: "\<forall>mv. map_at [((0, 0), 2), ((0, 1), 2)] mv
                    = (\<Sum>r\<leftarrow>[small_tree, small_tree]. child_visits_of r mv)
                \<and> map_at [((0, 0), 0), ((0, 1), 2)] mv
                    = (\<Sum>r\<leftarrow>[small_tree, small_tree]. child_wins_of r mv)"
    unfolding m by (simp del: split_paired_All)
  have w: "map_at [((0, 0), 0), ((0, 1), 2 :: real)] (0, 1) = 2"
    by (simp add: move_less_def)
  have v: "map_at [((0, 0), 2), ((0, 1), 2 :: int)] (1, 1) = 0"
    by (simp add: move_less_def)
  from sums have "map_at [((0, 0), 0), ((0, 1), 2)] (0, 1)
                    = (\<Sum>r\<leftarrow>[small_tree, small_tree]. child_wins_of r (0, 1))"
    by blast
  moreover from sums have "map_at [((0, 0), 2), ((0, 1), 2)] (1, 1)
                    = (\<Sum>r\<leftarrow>[small_tree, small_tree]. child_visits_of r (1, 1))"
    by blast
  ultimately show ?thesis
    using m w v by simp
qed

section \<open>The final choice\<close>

lemma best_step_rate:
  "best_step fp wmap (bs, bm) e =
     (if expected_success_rate fp wmap e > bs then (expected_success_rate fp wmap e, fst e) else (bs, bm))"
  by (simp add: best_step_def expected_success_rate_def Let_def)

lemma best_fold:
  "foldl (best_step fp w) (bs, bm) xs = (bs', bm') \<Longrightarrow>
     (bs' = bs \<and> bm' = bm \<and> (\<forall>j<length xs. expected_success_rate fp w (xs ! j) \<le> bs)) \<or>
     (\<exists>k<length xs. bm' = fst (xs ! k) \<and> bs' = expected_success_rate fp w (xs ! k) \<and> bs < bs'
         \<and> (\<forall>j<length xs. expected_success_rate fp w (xs ! j) \<le> bs')
         \<and> (\<forall>j<k. expected_success_rate fp w (xs ! j) < bs'))"
proof (induction xs arbitrary: bs' bm' rule: rev_induct)
  case Nil
  then show ?case by simp
next
  case (snoc x xs)
  obtain b1 m1 where f1: "foldl (best_step fp w) (bs, bm) xs = (b1, m1)"
    by (cases "foldl (best_step fp w) (bs, bm) xs") auto
  note ih = snoc.IH[OF f1]
  let ?r = "expected_success_rate fp w x"
  from snoc.prems f1 have st: "(bs', bm') = (if ?r > b1 then (?r, fst x) else (b1, m1))"
    by (simp add: best_step_rate)
  have nth_snoc: "(xs @ [x]) ! j = (if j < length xs then xs ! j else x)" if "j \<le> length xs" for j
    using that by (simp add: nth_append)
  show ?case
  proof (cases "?r > b1")
    case True
    with st have e: "bs' = ?r" "bm' = fst x" by simp_all
    from ih have below: "\<forall>j<length xs. expected_success_rate fp w (xs ! j) \<le> b1" and "bs \<le> b1"
      by auto
    have below2: "\<forall>j<length xs. expected_success_rate fp w (xs ! j) < ?r"
    proof (intro allI impI)
      fix j assume "j < length xs"
      with below have "expected_success_rate fp w (xs ! j) \<le> b1" by simp
      with True show "expected_success_rate fp w (xs ! j) < ?r" by simp
    qed
    have "length xs < length (xs @ [x]) \<and> bm' = fst ((xs @ [x]) ! length xs)
        \<and> bs' = expected_success_rate fp w ((xs @ [x]) ! length xs) \<and> bs < bs'
        \<and> (\<forall>j<length (xs @ [x]). expected_success_rate fp w ((xs @ [x]) ! j) \<le> bs')
        \<and> (\<forall>j<length xs. expected_success_rate fp w ((xs @ [x]) ! j) < bs')"
      using e True below2 \<open>bs \<le> b1\<close> by (auto simp: nth_append less_Suc_eq less_imp_le)
    then show ?thesis by blast
  next
    case False
    with st have e: "bs' = b1" "bm' = m1" by simp_all
    from ih show ?thesis
    proof
      assume "b1 = bs \<and> m1 = bm \<and> (\<forall>j<length xs. expected_success_rate fp w (xs ! j) \<le> bs)"
      with e False show ?thesis by (auto simp: nth_append less_Suc_eq)
    next
      assume "\<exists>k<length xs. m1 = fst (xs ! k) \<and> b1 = expected_success_rate fp w (xs ! k) \<and> bs < b1
         \<and> (\<forall>j<length xs. expected_success_rate fp w (xs ! j) \<le> b1)
         \<and> (\<forall>j<k. expected_success_rate fp w (xs ! j) < b1)"
      then obtain k where k: "k < length xs" "m1 = fst (xs ! k)"
        "b1 = expected_success_rate fp w (xs ! k)" "bs < b1"
        "\<forall>j<length xs. expected_success_rate fp w (xs ! j) \<le> b1"
        "\<forall>j<k. expected_success_rate fp w (xs ! j) < b1"
        by blast
      have "k < length (xs @ [x]) \<and> bm' = fst ((xs @ [x]) ! k)
        \<and> bs' = expected_success_rate fp w ((xs @ [x]) ! k) \<and> bs < bs'
        \<and> (\<forall>j<length (xs @ [x]). expected_success_rate fp w ((xs @ [x]) ! j) \<le> bs')
        \<and> (\<forall>j<k. expected_success_rate fp w ((xs @ [x]) ! j) < bs')"
        using k e False by (auto simp: nth_append less_Suc_eq)
      then show ?thesis by blast
    qed
  qed
qed

lemma keeps_sign_exact: "keeps_sign double_exact"
  by (simp add: keeps_sign_def double_exact_def)

lemma expected_success_rate_nonneg:
  assumes "keeps_sign fp" and "0 \<le> snd e" and "0 \<le> map_at wmap (fst e)"
  shows "0 \<le> expected_success_rate fp wmap e"
proof -
  from assms(1) have add: "\<And>a b. 0 \<le> a \<Longrightarrow> 0 < b \<Longrightarrow> 0 < d_add fp a b"
    and quot: "\<And>a b. 0 \<le> a \<Longrightarrow> 0 < b \<Longrightarrow> 0 \<le> d_div fp a b"
    by (simp_all add: keeps_sign_def)
  from assms(3) have "0 < d_add fp (map_at wmap (fst e)) 1"
    by (intro add) simp_all
  then have n: "0 \<le> d_add fp (map_at wmap (fst e)) 1"
    by simp
  from assms(2) have d: "0 < d_add fp (real_of_int (snd e)) 2"
    by (intro add) simp_all
  from quot[OF n d] show ?thesis
    by (simp add: expected_success_rate_def)
qed

lemma select_best_first_max:
  assumes "vmap \<noteq> []"
    and "\<forall>e\<in>set vmap. 0 \<le> snd e \<and> 0 \<le> map_at wmap (fst e)"
    and "keeps_sign fp"
  shows "\<exists>k<length vmap. select_best fp vmap wmap = fst (vmap ! k)
           \<and> (\<forall>j<length vmap. expected_success_rate fp wmap (vmap ! j) \<le> expected_success_rate fp wmap (vmap ! k))
           \<and> (\<forall>j<k. expected_success_rate fp wmap (vmap ! j) < expected_success_rate fp wmap (vmap ! k))"
proof -
  obtain bs' bm' where f: "foldl (best_step fp wmap) (-1, (0, 0)) vmap = (bs', bm')"
    by (cases "foldl (best_step fp wmap) (-1, (0, 0)) vmap") auto
  have pos: "expected_success_rate fp wmap (vmap ! j) > -1" if "j < length vmap" for j
  proof -
    from that assms(2) have "0 \<le> snd (vmap ! j)" "0 \<le> map_at wmap (fst (vmap ! j))"
      by (auto dest: nth_mem)
    then have "0 \<le> expected_success_rate fp wmap (vmap ! j)"
      by (intro expected_success_rate_nonneg[OF assms(3)])
    then show ?thesis by simp
  qed
  from assms(1) have "0 < length vmap" by simp
  from pos[OF this] have "\<not> (\<forall>j<length vmap. expected_success_rate fp wmap (vmap ! j) \<le> -1)"
    using \<open>0 < length vmap\<close> by force
  with best_fold[OF f] obtain k where "k < length vmap" "bm' = fst (vmap ! k)"
    "bs' = expected_success_rate fp wmap (vmap ! k)"
    "\<forall>j<length vmap. expected_success_rate fp wmap (vmap ! j) \<le> bs'"
    "\<forall>j<k. expected_success_rate fp wmap (vmap ! j) < bs'"
    by blast
  with f show ?thesis
    by (auto simp: select_best_def)
qed


text \<open>
  Claim C7. For merged statistics with at least one move, whose counts and win totals are not
  negative, the move chosen is that of an entry whose expected success rate
  \<open>(wins + 1) / (visits + 2)\<close>, as the program computes it in doubles, is the greatest, and the
  first such entry in the iteration order of the merged map: every earlier entry has a
  strictly smaller computed rate (entries whose rates round to the same double are tied).
  The choice is a function of the statistics and of the arithmetic alone (\<open>select_best\<close>
  takes no engine and no clock). Of the arithmetic only \<open>keeps_sign\<close> is used: the first
  rate computed is not negative, hence greater than the initial \<open>best_score = -1\<close>.
\<close>

theorem select_best_greatest:
  assumes "vmap \<noteq> []"
    and "\<forall>e\<in>set vmap. 0 \<le> snd e \<and> 0 \<le> map_at wmap (fst e)"
    and "keeps_sign fp"
  shows "\<exists>k<length vmap. select_best fp vmap wmap = fst (vmap ! k)
           \<and> (\<forall>j<length vmap. expected_success_rate fp wmap (vmap ! j) \<le> expected_success_rate fp wmap (vmap ! k))
           \<and> (\<forall>j<k. expected_success_rate fp wmap (vmap ! j) < expected_success_rate fp wmap (vmap ! k))"
  using assms by (rule select_best_first_max)

theorem select_best_greatest_witness:
  "merged_visits \<noteq> []
     \<and> list_all (\<lambda>e. 0 \<le> snd e \<and> 0 \<le> map_at merged_wins (fst e)) merged_visits
     \<and> keeps_sign double_exact
     \<and> (\<exists>k<length merged_visits. select_best double_exact merged_visits merged_wins = fst (merged_visits ! k)
           \<and> (\<forall>j<length merged_visits. expected_success_rate double_exact merged_wins (merged_visits ! j)
                 \<le> expected_success_rate double_exact merged_wins (merged_visits ! k))
           \<and> (\<forall>j<k. expected_success_rate double_exact merged_wins (merged_visits ! j)
                 < expected_success_rate double_exact merged_wins (merged_visits ! k)))
     \<and> select_best double_exact merged_visits merged_wins = (1, 0)"
proof -
  have ne: "merged_visits \<noteq> []"
    by (simp add: merged_visits_def)
  have pos: "\<forall>e\<in>set merged_visits. 0 \<le> snd e \<and> 0 \<le> map_at merged_wins (fst e)"
    by (simp add: merged_visits_def merged_wins_def move_less_def)
  have sel: "select_best double_exact merged_visits merged_wins = (1, 0)"
    by (simp add: select_best_def best_step_def merged_visits_def merged_wins_def move_less_def
        double_exact_def)
  from select_best_greatest[OF ne pos keeps_sign_exact] ne pos sel keeps_sign_exact show ?thesis
    unfolding list_all_iff by blast
qed

section \<open>Selecting a child\<close>

lemma max_element_from_foldl:
  "max_element_from lt x xs = foldl (\<lambda>best y. if lt best y then y else best) x xs"
  by (induction xs arbitrary: x) simp_all

lemma max_element_from_first:
  fixes f :: "'a \<Rightarrow> real"
  shows "\<exists>k<length (x # xs). max_element_from (\<lambda>a b. f a < f b) x xs = (x # xs) ! k
           \<and> (\<forall>j<length (x # xs). f ((x # xs) ! j) \<le> f ((x # xs) ! k))
           \<and> (\<forall>j<k. f ((x # xs) ! j) < f ((x # xs) ! k))"
proof (induction xs rule: rev_induct)
  case Nil
  then show ?case by simp
next
  case (snoc y ys)
  define zs where "zs = x # ys"
  define best where "best = max_element_from (\<lambda>a b. f a < f b) x ys"
  from snoc obtain k where k: "k < length zs" "best = zs ! k"
    "\<forall>j<length zs. f (zs ! j) \<le> f (zs ! k)"
    "\<forall>j<k. f (zs ! j) < f (zs ! k)"
    unfolding zs_def best_def by blast
  have step: "max_element_from (\<lambda>a b. f a < f b) x (ys @ [y]) = (if f best < f y then y else best)"
    by (simp add: max_element_from_foldl best_def)
  have zs: "x # ys @ [y] = zs @ [y]"
    by (simp add: zs_def)
  have old: "(zs @ [y]) ! j = zs ! j" if "j < length zs" for j
    using that by (simp add: nth_append)
  have new: "(zs @ [y]) ! length zs = y"
    by simp
  show ?case
    unfolding zs step
  proof (cases "f best < f y")
    case True
    have lt: "f (zs ! j) < f y" if "j < length zs" for j
    proof -
      from that k(3) have "f (zs ! j) \<le> f (zs ! k)" by blast
      with True k(2) show ?thesis by simp
    qed
    have "length zs < length (zs @ [y])
        \<and> (if f best < f y then y else best) = (zs @ [y]) ! length zs
        \<and> (\<forall>j<length (zs @ [y]). f ((zs @ [y]) ! j) \<le> f ((zs @ [y]) ! length zs))
        \<and> (\<forall>j<length zs. f ((zs @ [y]) ! j) < f ((zs @ [y]) ! length zs))"
      using True lt by (auto simp: less_Suc_eq old less_imp_le)
    then show "\<exists>k<length (zs @ [y]). (if f best < f y then y else best) = (zs @ [y]) ! k
           \<and> (\<forall>j<length (zs @ [y]). f ((zs @ [y]) ! j) \<le> f ((zs @ [y]) ! k))
           \<and> (\<forall>j<k. f ((zs @ [y]) ! j) < f ((zs @ [y]) ! k))"
      by blast
  next
    case False
    have "k < length (zs @ [y])
        \<and> (if f best < f y then y else best) = (zs @ [y]) ! k
        \<and> (\<forall>j<length (zs @ [y]). f ((zs @ [y]) ! j) \<le> f ((zs @ [y]) ! k))
        \<and> (\<forall>j<k. f ((zs @ [y]) ! j) < f ((zs @ [y]) ! k))"
      using False k by (auto simp: less_Suc_eq old)
    then show "\<exists>k<length (zs @ [y]). (if f best < f y then y else best) = (zs @ [y]) ! k
           \<and> (\<forall>j<length (zs @ [y]). f ((zs @ [y]) ! j) \<le> f ((zs @ [y]) ! k))
           \<and> (\<forall>j<k. f ((zs @ [y]) ! j) < f ((zs @ [y]) ! k))"
      by blast
  qed
qed

lemma set_UCT_score_fold:
  assumes "this < length s"
  shows "length (foldl (set_UCT_score fp this) s cs) = length s
       \<and> (\<forall>i<length s. foldl (set_UCT_score fp this) s cs ! i =
             (s ! i)\<lparr> UCT_score := (if i \<in> set cs then UCT_value fp s this i else UCT_score (s ! i)) \<rparr>)"
proof (induction cs rule: rev_induct)
  case Nil
  then show ?case by simp
next
  case (snoc c cs)
  let ?s1 = "foldl (set_UCT_score fp this) s cs"
  from snoc have len: "length ?s1 = length s"
    and ih: "\<And>i. i < length s \<Longrightarrow> ?s1 ! i =
             (s ! i)\<lparr> UCT_score := (if i \<in> set cs then UCT_value fp s this i else UCT_score (s ! i)) \<rparr>"
    by simp_all
  have f: "foldl (set_UCT_score fp this) s (cs @ [c]) = set_UCT_score fp this ?s1 c"
    by simp
  show ?case
  proof (cases "c < length s")
    case True
    have v: "set_UCT_score fp this ?s1 c = ?s1[c := (?s1 ! c)\<lparr> UCT_score := UCT_value fp s this c \<rparr>]"
      using True assms by (simp add: set_UCT_score_def UCT_value_def ih)
    show ?thesis
      unfolding f v using len True by (auto simp: nth_list_update ih)
  next
    case False
    then have "set_UCT_score fp this ?s1 c = ?s1"
      using len by (simp add: set_UCT_score_def list_update_beyond)
    with False show ?thesis
      unfolding f using len by (auto simp: ih)
  qed
qed

lemma select_child_UCT_first_max:
  assumes "this < length s" and "children (s ! this) \<noteq> []"
    and "\<forall>c\<in>set (children (s ! this)). c < length s"
  shows "\<exists>s' k. select_child_UCT fp s this = Some (s', children (s ! this) ! k)
           \<and> k < length (children (s ! this))
           \<and> same_nodes s s'
           \<and> (\<forall>j<length (children (s ! this)).
                 UCT_value fp s this (children (s ! this) ! j) \<le> UCT_value fp s this (children (s ! this) ! k))
           \<and> (\<forall>j<k. UCT_value fp s this (children (s ! this) ! j) < UCT_value fp s this (children (s ! this) ! k))"
proof -
  define cs where "cs = children (s ! this)"
  define s' where "s' = foldl (set_UCT_score fp this) s cs"
  note fold = set_UCT_score_fold[OF assms(1), where cs = cs and fp = fp]
  from fold have len: "length s' = length s"
    by (simp add: s'_def)
  from fold have nth: "\<And>i. i < length s \<Longrightarrow> s' ! i =
       (s ! i)\<lparr> UCT_score := (if i \<in> set cs then UCT_value fp s this i else UCT_score (s ! i)) \<rparr>"
    by (simp add: s'_def)
  have same: "same_nodes s s'"
    unfolding same_nodes_def using len nth by simp
  have cs': "children (s' ! this) = cs"
    using nth[OF assms(1)] by (simp add: cs_def)
  have in_range: "\<And>c. c \<in> set cs \<Longrightarrow> c < length s"
    using assms(3) by (simp add: cs_def)
  have score: "UCT_score (s' ! c) = UCT_value fp s this c" if "c \<in> set cs" for c
    using that in_range[OF that] nth[of c] by simp
  from assms(2) obtain x xs where xs: "cs = x # xs"
    by (cases cs) (auto simp: cs_def)
  from max_element_from_first[of x xs "\<lambda>a. UCT_score (s' ! a)"]
  obtain k where k: "k < length cs"
    "max_element_from (\<lambda>a b. UCT_score (s' ! a) < UCT_score (s' ! b)) x xs = cs ! k"
    "\<forall>j<length cs. UCT_score (s' ! (cs ! j)) \<le> UCT_score (s' ! (cs ! k))"
    "\<forall>j<k. UCT_score (s' ! (cs ! j)) < UCT_score (s' ! (cs ! k))"
    unfolding xs by blast
  have "max_element (\<lambda>a b. UCT_score (s' ! a) < UCT_score (s' ! b)) cs = Some (cs ! k)"
    using k(2) by (simp add: max_element_def xs)
  then have sel: "select_child_UCT fp s this = Some (s', cs ! k)"
    unfolding select_child_UCT_def Let_def cs_def[symmetric] s'_def[symmetric] cs' by simp
  have a: "\<forall>j<length cs. UCT_value fp s this (cs ! j) \<le> UCT_value fp s this (cs ! k)"
  proof (intro allI impI)
    fix j assume j: "j < length cs"
    with k(3) have "UCT_score (s' ! (cs ! j)) \<le> UCT_score (s' ! (cs ! k))" by blast
    then show "UCT_value fp s this (cs ! j) \<le> UCT_value fp s this (cs ! k)"
      using score[of "cs ! j"] score[of "cs ! k"] j k(1) by simp
  qed
  have b: "\<forall>j<k. UCT_value fp s this (cs ! j) < UCT_value fp s this (cs ! k)"
  proof (intro allI impI)
    fix j assume j: "j < k"
    with k(4) have "UCT_score (s' ! (cs ! j)) < UCT_score (s' ! (cs ! k))" by blast
    then show "UCT_value fp s this (cs ! j) < UCT_value fp s this (cs ! k)"
      using score[of "cs ! j"] score[of "cs ! k"] j k(1) by simp
  qed
  from sel k(1) same a b show ?thesis
    unfolding cs_def by blast
qed

text \<open>
  Claim C8. At a node with at least one child, all of whose children have been visited,
  \<open>select_child_UCT\<close> returns a child whose score
  \<open>wins / visits + sqrt (2 ln (this.visits) / visits)\<close>, as the program computes it in doubles,
  is the greatest among the children, and the first such child in the order of insertion:
  every earlier child has a strictly smaller computed score (children whose scores round to
  the same double are tied). The heap is left as it was but for the scratch scores. Nothing
  is assumed of the arithmetic. (The node itself has been visited, so that the logarithm is
  that of a positive number; the children are nodes of the heap.)
\<close>

theorem select_child_UCT_maximizes:
  assumes "this < length s" and "children (s ! this) \<noteq> []"
    and "\<forall>c\<in>set (children (s ! this)). c < length s \<and> 0 < visits (s ! c)"
    and "1 \<le> visits (s ! this)"
  shows "\<exists>s' k. select_child_UCT fp s this = Some (s', children (s ! this) ! k)
           \<and> k < length (children (s ! this))
           \<and> same_nodes s s'
           \<and> (\<forall>j<length (children (s ! this)).
                 UCT_value fp s this (children (s ! this) ! j) \<le> UCT_value fp s this (children (s ! this) ! k))
           \<and> (\<forall>j<k. UCT_value fp s this (children (s ! this) ! j) < UCT_value fp s this (children (s ! this) ! k))"
  using assms by (intro select_child_UCT_first_max) auto

theorem select_child_UCT_maximizes_witness:
  "0 < length small_tree \<and> children (small_tree ! 0) \<noteq> []
     \<and> list_all (\<lambda>c. c < length small_tree \<and> 0 < visits (small_tree ! c))
           (children (small_tree ! 0))
     \<and> 1 \<le> visits (small_tree ! 0)
     \<and> (\<exists>s'. select_child_UCT double_exact small_tree 0 = Some (s', 2) \<and> same_nodes small_tree s')"
proof -
  have h: "0 < length small_tree" "children (small_tree ! 0) \<noteq> []"
    "\<forall>c\<in>set (children (small_tree ! 0)). c < length small_tree \<and> 0 < visits (small_tree ! c)"
    "1 \<le> visits (small_tree ! 0)"
    by (simp_all add: small_tree_def Node_root_def Node_child_def)
  have cs: "children (small_tree ! 0) = [1, 2]"
    by (simp add: small_tree_def Node_root_def)
  have v: "UCT_value double_exact small_tree 0 1 < UCT_value double_exact small_tree 0 2"
    by (simp add: UCT_value_def small_tree_def Node_root_def Node_child_def double_exact_def)
  from select_child_UCT_maximizes[OF h, where fp = double_exact] obtain s' k where
    k: "select_child_UCT double_exact small_tree 0 = Some (s', [1, 2] ! k)" "k < 2" "same_nodes small_tree s'"
      "\<forall>j<2. UCT_value double_exact small_tree 0 ([1, 2] ! j) \<le> UCT_value double_exact small_tree 0 ([1, 2] ! k)"
    unfolding cs by auto
  from k(4) have "UCT_value double_exact small_tree 0 2 \<le> UCT_value double_exact small_tree 0 ([1, 2] ! k)"
    by (auto dest: spec[of _ 1])
  with v k(2) have "k = 1"
    by (cases "k = 0") auto
  with k(1,3) h show ?thesis
    unfolding list_all_iff by auto
qed

section \<open>The shape of the tree\<close>

lemma same_nodes_refl: "same_nodes s s"
  by (simp add: same_nodes_def)

lemma same_nodes_length: "same_nodes s s' \<Longrightarrow> length s' = length s"
  by (simp add: same_nodes_def)

lemma same_nodes_nth:
  assumes "same_nodes s s'" and "i < length s"
  shows "move (s' ! i) = move (s ! i)" and "parent (s' ! i) = parent (s ! i)"
    and "Node.player_to_move (s' ! i) = Node.player_to_move (s ! i)"
    and "wins (s' ! i) = wins (s ! i)" and "visits (s' ! i) = visits (s ! i)"
    and "moves (s' ! i) = moves (s ! i)" and "children (s' ! i) = children (s ! i)"
proof -
  from assms have e: "s' ! i = (s ! i)\<lparr> UCT_score := UCT_score (s' ! i) \<rparr>"
    by (simp add: same_nodes_def)
  show "move (s' ! i) = move (s ! i)" by (subst e) simp
  show "parent (s' ! i) = parent (s ! i)" by (subst e) simp
  show "Node.player_to_move (s' ! i) = Node.player_to_move (s ! i)" by (subst e) simp
  show "wins (s' ! i) = wins (s ! i)" by (subst e) simp
  show "visits (s' ! i) = visits (s ! i)" by (subst e) simp
  show "moves (s' ! i) = moves (s ! i)" by (subst e) simp
  show "children (s' ! i) = children (s ! i)" by (subst e) simp
qed

lemma same_nodes_trans:
  assumes "same_nodes s s1" and "same_nodes s1 s2"
  shows "same_nodes s s2"
proof -
  from assms have len: "length s1 = length s" "length s2 = length s"
    by (simp_all add: same_nodes_def)
  have "s2 ! i = (s ! i)\<lparr> UCT_score := UCT_score (s2 ! i) \<rparr>" if "i < length s" for i
  proof -
    from assms(1) that have a: "s1 ! i = (s ! i)\<lparr> UCT_score := UCT_score (s1 ! i) \<rparr>"
      by (simp add: same_nodes_def)
    from assms(2) that len have b: "s2 ! i = (s1 ! i)\<lparr> UCT_score := UCT_score (s2 ! i) \<rparr>"
      by (simp add: same_nodes_def)
    show ?thesis by (subst b, subst a) simp
  qed
  with len show ?thesis by (simp add: same_nodes_def)
qed

lemma same_nodes_links: "same_nodes s s' \<Longrightarrow> same_links s s'"
  unfolding same_links_def
  by (auto simp: same_nodes_length same_nodes_nth)

lemma same_links_length: "same_links s s' \<Longrightarrow> length s' = length s"
  by (simp add: same_links_def)

lemma tree_inv_same_links:
  assumes "tree_inv rs s" and "same_links s s'"
  shows "tree_inv rs s'"
proof -
  from assms(2) have len: "length s' = length s"
    and f: "\<And>i. i < length s \<Longrightarrow> parent (s' ! i) = parent (s ! i)"
           "\<And>i. i < length s \<Longrightarrow> Node.player_to_move (s' ! i) = Node.player_to_move (s ! i)"
           "\<And>i. i < length s \<Longrightarrow> children (s' ! i) = children (s ! i)"
    by (simp_all add: same_links_def)
  from assms(1) have ne: "s \<noteq> []" by (simp add: tree_inv_def)
  then have z: "0 < length s" by simp
  have a: "s' \<noteq> []" using len ne by auto
  have b: "Node.player_to_move (s' ! 0) = GomokuState.player_to_move rs"
    using assms(1) f(2)[OF z] by (simp add: tree_inv_def)
  have c: "case parent (s' ! i) of None \<Rightarrow> i = 0
         | Some p \<Rightarrow> p < i \<and> i \<in> set (children (s' ! p))
                      \<and> Node.player_to_move (s' ! i) = 3 - Node.player_to_move (s' ! p)"
    if "i < length s'" for i
  proof -
    from that len have i: "i < length s" by simp
    from assms(1) i have o: "case parent (s ! i) of None \<Rightarrow> i = 0
         | Some p \<Rightarrow> p < i \<and> i \<in> set (children (s ! p))
                      \<and> Node.player_to_move (s ! i) = 3 - Node.player_to_move (s ! p)"
      by (simp add: tree_inv_def)
    show ?thesis
    proof (cases "parent (s ! i)")
      case None
      with o f(1)[OF i] show ?thesis by simp
    next
      case (Some p)
      with o have "p < i" by simp
      with i have p: "p < length s" by simp
      from o Some show ?thesis
        by (simp add: f(1)[OF i] f(2)[OF i] f(2)[OF p] f(3)[OF p])
    qed
  qed
  have d: "distinct (children (s' ! i))
        \<and> (\<forall>c\<in>set (children (s' ! i)). c < length s' \<and> parent (s' ! c) = Some i)"
    if "i < length s'" for i
  proof -
    from that len have i: "i < length s" by simp
    from assms(1) i have o: "distinct (children (s ! i))
        \<and> (\<forall>c\<in>set (children (s ! i)). c < length s \<and> parent (s ! c) = Some i)"
      by (simp add: tree_inv_def)
    then show ?thesis
      using f(1) by (auto simp: f(3)[OF i] len)
  qed
  from a b c d show ?thesis
    unfolding tree_inv_def by blast
qed

lemma tree_inv_parent:
  assumes "tree_inv rs s" and "i < length s"
  shows "parent (s ! i) = None \<Longrightarrow> i = 0"
    and "parent (s ! i) = Some p \<Longrightarrow> p < i \<and> i \<in> set (children (s ! p))
           \<and> Node.player_to_move (s ! i) = 3 - Node.player_to_move (s ! p)"
  using assms by (auto simp: tree_inv_def dest!: spec[of _ i])

lemma tree_inv_root:
  assumes "tree_inv rs s"
  shows "0 < length s" and "parent (s ! 0) = None"
    and "Node.player_to_move (s ! 0) = GomokuState.player_to_move rs"
proof -
  from assms show z: "0 < length s" by (simp add: tree_inv_def)
  show "parent (s ! 0) = None"
  proof (cases "parent (s ! 0)")
    case (Some p)
    from tree_inv_parent(2)[OF assms z Some] show ?thesis by simp
  qed simp
  from assms show "Node.player_to_move (s ! 0) = GomokuState.player_to_move rs"
    by (simp add: tree_inv_def)
qed

lemma tree_inv_child:
  assumes "tree_inv rs s" and "i < length s" and "c \<in> set (children (s ! i))"
  shows "c < length s" and "parent (s ! c) = Some i" and "i < c"
    and "Node.player_to_move (s ! c) = 3 - Node.player_to_move (s ! i)"
proof -
  from assms show c: "c < length s" and p: "parent (s ! c) = Some i"
    by (auto simp: tree_inv_def)
  from tree_inv_parent(2)[OF assms(1) c p]
  show "i < c" and "Node.player_to_move (s ! c) = 3 - Node.player_to_move (s ! i)"
    by simp_all
qed

lemma tree_inv_distinct:
  "tree_inv rs s \<Longrightarrow> i < length s \<Longrightarrow> distinct (children (s ! i))"
  by (simp add: tree_inv_def)

lemma do_move_player:
  "GomokuState.player_to_move (do_move state mv) = 3 - GomokuState.player_to_move state"
  by (simp add: do_move_def)

lemma select_loop_total:
  assumes "tree_inv rs s" and "node < length s"
  shows "\<exists>s' node' state'. select_loop fp s node state = Some (s', node', state')
           \<and> same_nodes s s' \<and> node' < length s
           \<and> \<not> (\<not> has_untried_moves (s ! node') \<and> has_children (s ! node'))
           \<and> (node' = node \<or> node < node')
           \<and> (GomokuState.player_to_move state = Node.player_to_move (s ! node)
                \<longrightarrow> GomokuState.player_to_move state' = Node.player_to_move (s ! node'))"
  using assms
proof (induction "length s - node" arbitrary: s node state rule: less_induct)
  case less
  show ?case
  proof (cases "\<not> has_untried_moves (s ! node) \<and> has_children (s ! node)")
    case False
    then have "select_loop fp s node state = Some (s, node, state)"
      by (subst select_loop.simps) auto
    with False less.prems show ?thesis
      by (auto simp: same_nodes_refl)
  next
    case True
    then have ch: "children (s ! node) \<noteq> []"
      by (simp add: has_children_def)
    have rng: "\<forall>c\<in>set (children (s ! node)). c < length s"
      using tree_inv_child(1)[OF less.prems] by blast
    from select_child_UCT_first_max[OF less.prems(2) ch rng]
    obtain s1 k where sel: "select_child_UCT fp s node = Some (s1, children (s ! node) ! k)"
      and k: "k < length (children (s ! node))" and same1: "same_nodes s s1"
      by blast
    define c where "c = children (s ! node) ! k"
    from k have cmem: "c \<in> set (children (s ! node))"
      by (simp add: c_def)
    note cf = tree_inv_child[OF less.prems cmem]
    have inv1: "tree_inv rs s1"
      using less.prems(1) same1 by (blast intro: tree_inv_same_links same_nodes_links)
    have len1: "length s1 = length s"
      using same1 by (rule same_nodes_length)
    let ?st1 = "do_move state (move (s1 ! c))"
    have m: "length s1 - c < length s - node"
      using cf(1,3) len1 by simp
    have c1: "c < length s1" using cf(1) len1 by simp
    from less.hyps[OF m inv1 c1, of ?st1]
    obtain s' node' state' where r: "select_loop fp s1 c ?st1 = Some (s', node', state')"
      "same_nodes s1 s'" "node' < length s1"
      "\<not> (\<not> has_untried_moves (s1 ! node') \<and> has_children (s1 ! node'))"
      "node' = c \<or> c < node'"
      "GomokuState.player_to_move ?st1 = Node.player_to_move (s1 ! c)
         \<longrightarrow> GomokuState.player_to_move state' = Node.player_to_move (s1 ! node')"
      by blast
    have unf: "select_loop fp s node state = select_loop fp s1 c ?st1"
      using True sel by (subst select_loop.simps) (simp add: c_def)
    have n': "node' < length s" using r(3) len1 by simp
    have exit: "\<not> (\<not> has_untried_moves (s ! node') \<and> has_children (s ! node'))"
      using r(4) same_nodes_nth(6,7)[OF same1 n']
      by (simp add: has_untried_moves_def has_children_def)
    have pl: "GomokuState.player_to_move state' = Node.player_to_move (s ! node')"
      if "GomokuState.player_to_move state = Node.player_to_move (s ! node)"
    proof -
      have "GomokuState.player_to_move ?st1 = Node.player_to_move (s1 ! c)"
        using that cf(4) same_nodes_nth(3)[OF same1 cf(1)] by (simp add: do_move_player)
      with r(6) show ?thesis
        using same_nodes_nth(3)[OF same1 n'] by simp
    qed
    from r(1,2,5) unf n' exit pl same1 cf(3) show ?thesis
      by (auto intro: same_nodes_trans)
  qed
qed

section \<open>Backpropagation\<close>

lemma update_length: "length (update s n r) = length s"
  by (simp add: update_def)

lemma update_nth_other: "j \<noteq> n \<Longrightarrow> update s n r ! j = s ! j"
  by (simp add: update_def)

lemma update_nth_same:
  "n < length s \<Longrightarrow>
     update s n r ! n = (s ! n)\<lparr> visits := visits (s ! n) + 1, wins := wins (s ! n) + r \<rparr>"
  by (simp add: update_def)

lemma update_fields:
  shows "parent (update s n r ! j) = parent (s ! j)"
    and "Node.player_to_move (update s n r ! j) = Node.player_to_move (s ! j)"
    and "children (update s n r ! j) = children (s ! j)"
    and "moves (update s n r ! j) = moves (s ! j)"
    and "move (update s n r ! j) = move (s ! j)"
proof -
  have "parent (update s n r ! j) = parent (s ! j)
      \<and> Node.player_to_move (update s n r ! j) = Node.player_to_move (s ! j)
      \<and> children (update s n r ! j) = children (s ! j)
      \<and> moves (update s n r ! j) = moves (s ! j)
      \<and> move (update s n r ! j) = move (s ! j)"
  proof (cases "j = n \<and> n < length s")
    case True
    then show ?thesis by (simp add: update_nth_same)
  next
    case False
    then have "update s n r ! j = s ! j"
      by (auto simp: update_def list_update_beyond)
    then show ?thesis by simp
  qed
  then show "parent (update s n r ! j) = parent (s ! j)"
    and "Node.player_to_move (update s n r ! j) = Node.player_to_move (s ! j)"
    and "children (update s n r ! j) = children (s ! j)"
    and "moves (update s n r ! j) = moves (s ! j)"
    and "move (update s n r ! j) = move (s ! j)"
    by simp_all
qed

lemma update_same_links: "same_links s (update s n r)"
  by (simp add: same_links_def update_length update_fields)

lemma on_path_update_imp:
  assumes "on_path s a b" and "\<And>j. parent (s' ! j) = parent (s ! j)"
  shows "on_path s' a b"
  using assms(1)
proof (induction rule: on_path.induct)
  case (here n)
  show ?case by (rule on_path.here)
next
  case (up n p i)
  from up(1) assms(2) have "parent (s' ! n) = Some p" by simp
  then show ?case using up(3) by (rule on_path.up)
qed

lemma on_path_update: "on_path (update s n r) a b \<longleftrightarrow> on_path s a b"
  by (auto intro: on_path_update_imp simp: update_fields)

lemma on_path_cases:
  "on_path s n i \<longleftrightarrow> i = n \<or> (\<exists>p. parent (s ! n) = Some p \<and> on_path s p i)"
  by (auto intro: on_path.intros elim: on_path.cases)

lemma on_path_le:
  assumes "tree_inv rs s"
  shows "on_path s a b \<Longrightarrow> a < length s \<Longrightarrow> b \<le> a"
proof (induction rule: on_path.induct)
  case (here n)
  show ?case by simp
next
  case (up n p i)
  from tree_inv_parent(2)[OF assms up(4) up(1)] have "p < n" by simp
  with up show ?case by simp
qed

lemma on_path_root:
  assumes "tree_inv rs s"
  shows "n < length s \<Longrightarrow> on_path s n 0"
proof (induction n rule: less_induct)
  case (less n)
  show ?case
  proof (cases "parent (s ! n)")
    case None
    with tree_inv_parent(1)[OF assms less.prems] have "n = 0" by simp
    then show ?thesis by (simp add: on_path.here)
  next
    case (Some p)
    from tree_inv_parent(2)[OF assms less.prems Some] have "p < n" by simp
    with less have "on_path s p 0" by simp
    with Some show ?thesis by (rule on_path.up)
  qed
qed

lemma backpropagate_effect:
  assumes "tree_inv rs s"
  shows "n < length s \<Longrightarrow>
         \<exists>s'. backpropagate s state (Some n) = Some s' \<and> length s' = length s
           \<and> (\<forall>i<length s. s' ! i =
                 (if on_path s n i
                  then (s ! i)\<lparr> visits := visits (s ! i) + 1,
                                wins := wins (s ! i) + get_result state (Node.player_to_move (s ! i)) \<rparr>
                  else s ! i))"
  using assms
proof (induction n arbitrary: s rule: less_induct)
  case (less n)
  define r where "r = get_result state (Node.player_to_move (s ! n))"
  define s1 where "s1 = update s n r"
  have len1: "length s1 = length s"
    by (simp add: s1_def update_length)
  have inv1: "tree_inv rs s1"
    unfolding s1_def using less.prems(2) update_same_links by (rule tree_inv_same_links)
  have par: "parent (s1 ! n) = parent (s ! n)"
    by (simp add: s1_def update_fields)
  have unf: "backpropagate s state (Some n) = backpropagate s1 state (parent (s ! n))"
    by (subst backpropagate.simps) (simp add: Let_def r_def s1_def update_fields)
  have s1n: "s1 ! n = (s ! n)\<lparr> visits := visits (s ! n) + 1, wins := wins (s ! n) + r \<rparr>"
    using less.prems(1) by (simp add: s1_def update_nth_same)
  have s1o: "\<And>i. i \<noteq> n \<Longrightarrow> s1 ! i = s ! i"
    by (simp add: s1_def update_nth_other)
  show ?case
  proof (cases "parent (s ! n)")
    case None
    have "backpropagate s1 state None = Some s1"
      by (subst backpropagate.simps) simp
    with unf None have b: "backpropagate s state (Some n) = Some s1" by simp
    have "on_path s n i \<longleftrightarrow> i = n" for i
      using None by (subst on_path_cases) simp
    with b len1 s1n s1o show ?thesis
      by (auto simp: r_def)
  next
    case (Some p)
    from tree_inv_parent(2)[OF less.prems(2,1) Some] have pn: "p < n" by simp
    with less.prems(1) len1 have p1: "p < length s1" by simp
    from less.IH[OF pn p1 inv1] obtain s' where
      b: "backpropagate s1 state (Some p) = Some s'" and len': "length s' = length s1"
      and nth: "\<And>i. i < length s1 \<Longrightarrow> s' ! i =
                 (if on_path s1 p i
                  then (s1 ! i)\<lparr> visits := visits (s1 ! i) + 1,
                                wins := wins (s1 ! i) + get_result state (Node.player_to_move (s1 ! i)) \<rparr>
                  else s1 ! i)"
      by blast
    have op1: "on_path s1 p i \<longleftrightarrow> on_path s p i" for i
      by (simp add: s1_def on_path_update)
    have notn: "\<not> on_path s p n"
    proof
      assume "on_path s p n"
      from on_path_le[OF less.prems(2) this] pn less.prems(1) show False by simp
    qed
    have opn: "on_path s n i \<longleftrightarrow> i = n \<or> on_path s p i" for i
      using Some by (subst on_path_cases) simp
    have "s' ! i =
         (if on_path s n i
          then (s ! i)\<lparr> visits := visits (s ! i) + 1,
                        wins := wins (s ! i) + get_result state (Node.player_to_move (s ! i)) \<rparr>
          else s ! i)" if i: "i < length s" for i
    proof (cases "i = n")
      case True
      with nth[of n] less.prems(1) len1 notn op1 have "s' ! i = s1 ! n" by simp
      with True s1n show ?thesis
        by (simp add: opn r_def)
    next
      case False
      with nth[of i] i len1 show ?thesis
        by (simp add: op1 opn s1o)
    qed
    with unf Some b len' len1 show ?thesis
      by simp
  qed
qed

lemma on_path_rootD:
  assumes "tree_inv rs s" and "on_path s 0 i"
  shows "i = 0"
  using on_path_le[OF assms(1) assms(2) tree_inv_root(1)[OF assms(1)]] by simp

lemma on_path_step:
  assumes "parent (s ! n) = Some p"
  shows "on_path s n i \<longleftrightarrow> i = n \<or> on_path s p i"
proof
  assume "on_path s n i"
  then show "i = n \<or> on_path s p i"
    using assms by (cases rule: on_path.cases) auto
next
  assume "i = n \<or> on_path s p i"
  then show "on_path s n i"
    using assms by (auto intro: on_path.intros)
qed

lemma root_child_on_path:
  assumes "tree_inv rs s"
  shows "n < length s \<Longrightarrow> n \<noteq> 0 \<Longrightarrow>
         \<exists>c. c \<in> set (children (s ! 0)) \<and> on_path s n c
            \<and> (\<forall>c'. c' \<in> set (children (s ! 0)) \<and> on_path s n c' \<longrightarrow> c' = c)"
proof (induction n rule: less_induct)
  case (less n)
  note z = tree_inv_root(1)[OF assms]
  have child_par: "parent (s ! c) = Some 0" "0 < c" if "c \<in> set (children (s ! 0))" for c
    using tree_inv_child(2,3)[OF assms z that] by simp_all
  from less.prems tree_inv_parent(1)[OF assms less.prems(1)]
  obtain p where p: "parent (s ! n) = Some p"
    by (cases "parent (s ! n)") auto
  from tree_inv_parent(2)[OF assms less.prems(1) p]
  have pn: "p < n" and mem: "n \<in> set (children (s ! p))" by simp_all
  note opn = on_path_step[OF p]
  show ?case
  proof (cases "p = 0")
    case True
    have uniq: "c' = n" if "c' \<in> set (children (s ! 0))" "on_path s n c'" for c'
    proof -
      from that(2) have "c' = n \<or> on_path s 0 c'"
        unfolding opn True .
      then show ?thesis
      proof
        assume "on_path s 0 c'"
        from on_path_rootD[OF assms this] child_par(2)[OF that(1)] show ?thesis by simp
      qed
    qed
    have "n \<in> set (children (s ! 0))" using mem True by simp
    moreover have "on_path s n n" by (rule on_path.here)
    ultimately show ?thesis using uniq by blast
  next
    case False
    from pn less.prems(1) have pl: "p < length s" by simp
    from less.IH[OF pn pl False] obtain c where
      c: "c \<in> set (children (s ! 0))" "on_path s p c"
         "\<forall>c'. c' \<in> set (children (s ! 0)) \<and> on_path s p c' \<longrightarrow> c' = c"
      by blast
    have nn: "n \<notin> set (children (s ! 0))"
    proof
      assume "n \<in> set (children (s ! 0))"
      from child_par(1)[OF this] p False show False by simp
    qed
    have uniq: "c' = c" if "c' \<in> set (children (s ! 0))" "on_path s n c'" for c'
    proof -
      from that(2) have "c' = n \<or> on_path s p c'"
        unfolding opn .
      with that(1) nn have "on_path s p c'" by blast
      with that(1) c(3) show ?thesis by blast
    qed
    have "on_path s n c" unfolding opn using c(2) by simp
    with c(1) uniq show ?thesis by blast
  qed
qed

lemma sum_list_one_more:
  fixes f g :: "nat \<Rightarrow> int"
  assumes "distinct cs" and "c \<in> set cs" and "g c = f c + 1"
    and "\<And>x. x \<in> set cs \<Longrightarrow> x \<noteq> c \<Longrightarrow> g x = f x"
  shows "(\<Sum>x\<leftarrow>cs. g x) = (\<Sum>x\<leftarrow>cs. f x) + 1"
  using assms
proof (induction cs)
  case Nil
  then show ?case by simp
next
  case (Cons a cs)
  show ?case
  proof (cases "a = c")
    case True
    with Cons.prems(1) have "c \<notin> set cs" by simp
    then have "\<And>x. x \<in> set cs \<Longrightarrow> g x = f x"
      using Cons.prems(4) by auto
    then have "(\<Sum>x\<leftarrow>cs. g x) = (\<Sum>x\<leftarrow>cs. f x)"
      by (simp cong: map_cong)
    with True Cons.prems(3) show ?thesis by simp
  next
    case False
    with Cons.prems have "(\<Sum>x\<leftarrow>cs. g x) = (\<Sum>x\<leftarrow>cs. f x) + 1"
      by (intro Cons.IH) auto
    moreover from False Cons.prems(4) have "g a = f a" by simp
    ultimately show ?thesis by simp
  qed
qed

lemma backpropagate_root:
  assumes "tree_inv rs s" and "n < length s"
  shows "\<exists>s'. backpropagate s state (Some n) = Some s' \<and> same_links s s' \<and> tree_inv rs s'
           \<and> visits (s' ! 0) = visits (s ! 0) + 1
           \<and> (n \<noteq> 0 \<longrightarrow> root_children_visits s' = root_children_visits s + 1)
           \<and> (\<forall>i<length s. visits (s ! i) \<le> visits (s' ! i))"
proof -
  from backpropagate_effect[OF assms, of state] obtain s' where
    b: "backpropagate s state (Some n) = Some s'" and len: "length s' = length s"
    and nth: "\<And>i. i < length s \<Longrightarrow> s' ! i =
                 (if on_path s n i
                  then (s ! i)\<lparr> visits := visits (s ! i) + 1,
                                wins := wins (s ! i) + get_result state (Node.player_to_move (s ! i)) \<rparr>
                  else s ! i)"
    by blast
  have links: "same_links s s'"
    unfolding same_links_def using len nth by simp
  then have inv': "tree_inv rs s'"
    using assms(1) by (blast intro: tree_inv_same_links)
  note z = tree_inv_root(1)[OF assms(1)]
  have v: "visits (s' ! i) = visits (s ! i) + (if on_path s n i then 1 else 0)"
    if "i < length s" for i
    using nth[OF that] by simp
  have root: "visits (s' ! 0) = visits (s ! 0) + 1"
    using v[OF z] on_path_root[OF assms] by simp
  have mono: "\<forall>i<length s. visits (s ! i) \<le> visits (s' ! i)"
    using v by simp
  have ch: "children (s' ! 0) = children (s ! 0)"
    using nth[OF z] by simp
  have sum: "root_children_visits s' = root_children_visits s + 1" if "n \<noteq> 0"
  proof -
    from root_child_on_path[OF assms that] obtain c where
      c: "c \<in> set (children (s ! 0))" "on_path s n c"
         "\<forall>c'. c' \<in> set (children (s ! 0)) \<and> on_path s n c' \<longrightarrow> c' = c"
      by blast
    have rng: "\<And>x. x \<in> set (children (s ! 0)) \<Longrightarrow> x < length s"
      using tree_inv_child(1)[OF assms(1) z] by blast
    have "(\<Sum>x\<leftarrow>children (s ! 0). visits (s' ! x)) = (\<Sum>x\<leftarrow>children (s ! 0). visits (s ! x)) + 1"
    proof (rule sum_list_one_more[OF tree_inv_distinct[OF assms(1) z] c(1)])
      show "visits (s' ! c) = visits (s ! c) + 1"
        using v[OF rng[OF c(1)]] c(2) by simp
    next
      fix x assume "x \<in> set (children (s ! 0))" "x \<noteq> c"
      with c(3) have "\<not> on_path s n x" by blast
      with v[OF rng[OF \<open>x \<in> set (children (s ! 0))\<close>]] show "visits (s' ! x) = visits (s ! x)"
        by simp
    qed
    then show ?thesis
      by (simp add: root_children_visits_def ch)
  qed
  from b links inv' root sum mono show ?thesis
    by blast
qed

section \<open>Expansion\<close>

lemma add_child_eq:
  assumes "node < length s"
  shows "add_child s node mv st =
           ((s @ [Node_child st mv node])
              [node := (s ! node)\<lparr> children := children (s ! node) @ [length s],
                                   moves := remove1 mv (moves (s ! node)) \<rparr>],
            length s)"
  using assms by (simp add: add_child_def Let_def nth_append)

lemma add_child_nth:
  assumes "node < length s" and "add_child s node mv st = (s2, node2)"
  shows "node2 = length s" and "length s2 = Suc (length s)"
    and "s2 ! length s = Node_child st mv node"
    and "s2 ! node = (s ! node)\<lparr> children := children (s ! node) @ [length s],
                                   moves := remove1 mv (moves (s ! node)) \<rparr>"
    and "\<And>i. i < length s \<Longrightarrow> i \<noteq> node \<Longrightarrow> s2 ! i = s ! i"
proof -
  from assms(2) have "(s2, node2) = add_child s node mv st" by simp
  also note add_child_eq[OF assms(1)]
  finally have s2: "s2 = (s @ [Node_child st mv node])
              [node := (s ! node)\<lparr> children := children (s ! node) @ [length s],
                                   moves := remove1 mv (moves (s ! node)) \<rparr>]"
    and n2: "node2 = length s"
    by blast+
  show "node2 = length s" by (rule n2)
  show "length s2 = Suc (length s)" by (simp add: s2)
  show "s2 ! length s = Node_child st mv node"
    using assms(1) by (simp add: s2 nth_list_update)
  show "s2 ! node = (s ! node)\<lparr> children := children (s ! node) @ [length s],
                                   moves := remove1 mv (moves (s ! node)) \<rparr>"
    using assms(1) by (simp add: s2)
  show "\<And>i. i < length s \<Longrightarrow> i \<noteq> node \<Longrightarrow> s2 ! i = s ! i"
    by (simp add: s2 nth_append)
qed

lemma add_child_fields:
  assumes "node < length s" and "add_child s node mv st = (s2, node2)" and "i < length s"
  shows "parent (s2 ! i) = parent (s ! i)"
    and "Node.player_to_move (s2 ! i) = Node.player_to_move (s ! i)"
    and "visits (s2 ! i) = visits (s ! i)"
    and "wins (s2 ! i) = wins (s ! i)"
    and "move (s2 ! i) = move (s ! i)"
    and "children (s2 ! i) = (if i = node then children (s ! i) @ [length s] else children (s ! i))"
    and "moves (s2 ! i) = (if i = node then remove1 mv (moves (s ! i)) else moves (s ! i))"
proof -
  note n = add_child_nth[OF assms(1,2)]
  have e: "s2 ! i = (if i = node
                     then (s ! node)\<lparr> children := children (s ! node) @ [length s],
                                        moves := remove1 mv (moves (s ! node)) \<rparr>
                     else s ! i)"
    using n(4) n(5)[OF assms(3)] by simp
  show "parent (s2 ! i) = parent (s ! i)" by (simp add: e)
  show "Node.player_to_move (s2 ! i) = Node.player_to_move (s ! i)" by (simp add: e)
  show "visits (s2 ! i) = visits (s ! i)" by (simp add: e)
  show "wins (s2 ! i) = wins (s ! i)" by (simp add: e)
  show "move (s2 ! i) = move (s ! i)" by (simp add: e)
  show "children (s2 ! i) = (if i = node then children (s ! i) @ [length s] else children (s ! i))"
    by (simp add: e)
  show "moves (s2 ! i) = (if i = node then remove1 mv (moves (s ! i)) else moves (s ! i))"
    by (simp add: e)
qed

lemma add_child_tree_inv:
  assumes inv: "tree_inv rs s" and node: "node < length s"
    and add: "add_child s node mv st = (s2, node2)"
    and pl: "GomokuState.player_to_move st = 3 - Node.player_to_move (s ! node)"
  shows "tree_inv rs s2"
proof -
  note n = add_child_nth[OF node add]
  note f = add_child_fields[OF node add]
  note z = tree_inv_root(1)[OF inv]
  have new_par: "parent (s2 ! length s) = Some node"
    and new_pl: "Node.player_to_move (s2 ! length s) = GomokuState.player_to_move st"
    and new_ch: "children (s2 ! length s) = []"
    by (simp_all add: n(3) Node_child_def)
  have a: "s2 \<noteq> []" using n(2) by auto
  have b: "Node.player_to_move (s2 ! 0) = GomokuState.player_to_move rs"
    using f(2)[OF z] tree_inv_root(3)[OF inv] by simp
  have c: "case parent (s2 ! i) of None \<Rightarrow> i = 0
         | Some p \<Rightarrow> p < i \<and> i \<in> set (children (s2 ! p))
                      \<and> Node.player_to_move (s2 ! i) = 3 - Node.player_to_move (s2 ! p)"
    if "i < length s2" for i
  proof (cases "i = length s")
    case True
    show ?thesis
      unfolding True new_par using node pl new_pl f(2)[OF node] f(6)[OF node] by simp
  next
    case False
    with that n(2) have i: "i < length s" by simp
    show ?thesis
    proof (cases "parent (s ! i)")
      case None
      with tree_inv_parent(1)[OF inv i] f(1)[OF i] show ?thesis by simp
    next
      case (Some p)
      from tree_inv_parent(2)[OF inv i Some] have p: "p < i" "i \<in> set (children (s ! p))"
        "Node.player_to_move (s ! i) = 3 - Node.player_to_move (s ! p)"
        by simp_all
      from p(1) i have pl: "p < length s" by simp
      have "i \<in> set (children (s2 ! p))"
        using p(2) f(6)[OF pl] by auto
      with Some p(1,3) show ?thesis
        by (simp add: f(1)[OF i] f(2)[OF i] f(2)[OF pl])
    qed
  qed
  have d: "distinct (children (s2 ! i))
        \<and> (\<forall>c\<in>set (children (s2 ! i)). c < length s2 \<and> parent (s2 ! c) = Some i)"
    if "i < length s2" for i
  proof (cases "i = length s")
    case True
    then show ?thesis by (simp add: new_ch)
  next
    case False
    with that n(2) have i: "i < length s" by simp
    have old: "c < length s \<and> parent (s2 ! c) = Some i" if "c \<in> set (children (s ! i))" for c
    proof -
      from tree_inv_child(1,2)[OF inv i that] have "c < length s" "parent (s ! c) = Some i"
        by simp_all
      then show ?thesis using f(1)[of c] by simp
    qed
    have dist: "distinct (children (s ! i))"
      by (rule tree_inv_distinct[OF inv i])
    show ?thesis
    proof (cases "i = node")
      case True
      have "length s \<notin> set (children (s ! i))"
        using old by auto
      with dist have "distinct (children (s ! i) @ [length s])" by simp
      moreover have "\<forall>c\<in>set (children (s ! i) @ [length s]). c < length s2 \<and> parent (s2 ! c) = Some i"
        using old n(2) new_par True by (auto simp: less_Suc_eq)
      ultimately show ?thesis
        using f(6)[OF i] True by simp
    next
      case False
      then have "children (s2 ! i) = children (s ! i)"
        using f(6)[OF i] by simp
      with dist old n(2) show ?thesis by (auto simp: less_Suc_eq)
    qed
  qed
  from a b c d show ?thesis
    unfolding tree_inv_def by blast
qed

section \<open>One iteration\<close>

lemma root_children_visits_cong:
  assumes "children (s' ! 0) = children (s ! 0)"
    and "\<And>c. c \<in> set (children (s ! 0)) \<Longrightarrow> visits (s' ! c) = visits (s ! c)"
  shows "root_children_visits s' = root_children_visits s"
  unfolding root_children_visits_def assms(1)
  using assms(2) by (simp cong: map_cong)

lemma same_nodes_root_children_visits:
  assumes "tree_inv rs s" and "same_nodes s s'"
  shows "root_children_visits s' = root_children_visits s"
proof (rule root_children_visits_cong)
  note z = tree_inv_root(1)[OF assms(1)]
  show "children (s' ! 0) = children (s ! 0)"
    by (rule same_nodes_nth(7)[OF assms(2) z])
  fix c assume "c \<in> set (children (s ! 0))"
  from tree_inv_child(1)[OF assms(1) z this] show "visits (s' ! c) = visits (s ! c)"
    by (rule same_nodes_nth(5)[OF assms(2)])
qed

lemma select_loop_stop:
  assumes "has_untried_moves (s ! node) \<or> \<not> has_children (s ! node)"
  shows "select_loop fp s node state = Some (s, node, state)"
  using assms by (subst select_loop.simps) auto

lemma expand_effect:
  assumes inv: "tree_inv rs s" and node: "node < length s"
    and pl: "GomokuState.player_to_move state = Node.player_to_move (s ! node)"
    and e: "expand draw s node state g = (s2, node2, state2, g2)"
  shows "tree_inv rs s2" and "node2 < length s2"
    and "visits (s2 ! 0) = visits (s ! 0)"
    and "root_children_visits s2 = root_children_visits s"
    and "has_untried_moves (s ! node) \<Longrightarrow> node2 = length s"
    and "\<not> has_untried_moves (s ! node) \<Longrightarrow> s2 = s \<and> node2 = node"
    and "moves (s ! 0) \<noteq> [] \<or> children (s ! 0) \<noteq> [] \<Longrightarrow>
           moves (s2 ! 0) \<noteq> [] \<or> children (s2 ! 0) \<noteq> []"
proof -
  note z = tree_inv_root(1)[OF inv]
  have all: "tree_inv rs s2 \<and> node2 < length s2 \<and> visits (s2 ! 0) = visits (s ! 0)
      \<and> root_children_visits s2 = root_children_visits s
      \<and> (has_untried_moves (s ! node) \<longrightarrow> node2 = length s)
      \<and> (\<not> has_untried_moves (s ! node) \<longrightarrow> s2 = s \<and> node2 = node)
      \<and> (moves (s ! 0) \<noteq> [] \<or> children (s ! 0) \<noteq> [] \<longrightarrow>
           moves (s2 ! 0) \<noteq> [] \<or> children (s2 ! 0) \<noteq> [])"
  proof (cases "has_untried_moves (s ! node)")
    case False
    with e have "s2 = s" "node2 = node"
      by (simp_all add: expand_def)
    with False inv node show ?thesis by simp
  next
    case True
    obtain mv g' where gm: "get_untried_move draw (s ! node) g = (mv, g')"
      by (cases "get_untried_move draw (s ! node) g") auto
    define st where "st = do_move state mv"
    obtain sa na where add: "add_child s node mv st = (sa, na)"
      by (cases "add_child s node mv st") auto
    from e True gm add have eq: "s2 = sa" "node2 = na"
      by (simp_all add: expand_def Let_def st_def)
    have pl': "GomokuState.player_to_move st = 3 - Node.player_to_move (s ! node)"
      using pl by (simp add: st_def do_move_player)
    have inv2: "tree_inv rs sa"
      by (rule add_child_tree_inv[OF inv node add pl'])
    note n = add_child_nth[OF node add]
    note f = add_child_fields[OF node add]
    have rng: "\<And>c. c \<in> set (children (s ! 0)) \<Longrightarrow> c < length s"
      using tree_inv_child(1)[OF inv z] by blast
    have newv: "visits (sa ! length s) = 0"
      by (simp add: n(3) Node_child_def)
    have "(\<Sum>c\<leftarrow>children (s ! 0). visits (sa ! c)) = (\<Sum>c\<leftarrow>children (s ! 0). visits (s ! c))"
      using rng f(3) by (simp cong: map_cong)
    then have sum: "root_children_visits sa = root_children_visits s"
      using f(6)[OF z] newv by (simp add: root_children_visits_def)
    have nonleaf: "moves (sa ! 0) \<noteq> [] \<or> children (sa ! 0) \<noteq> []"
      if "moves (s ! 0) \<noteq> [] \<or> children (s ! 0) \<noteq> []"
      using that f(6)[OF z] f(7)[OF z] by (cases "node = 0") auto
    from inv2 n(1,2) f(3)[OF z] sum nonleaf True show ?thesis
      unfolding eq by simp
  qed
  from all show "tree_inv rs s2" and "node2 < length s2"
    and "visits (s2 ! 0) = visits (s ! 0)"
    and "root_children_visits s2 = root_children_visits s"
    and "has_untried_moves (s ! node) \<Longrightarrow> node2 = length s"
    and "\<not> has_untried_moves (s ! node) \<Longrightarrow> s2 = s \<and> node2 = node"
    and "moves (s ! 0) \<noteq> [] \<or> children (s ! 0) \<noteq> [] \<Longrightarrow>
           moves (s2 ! 0) \<noteq> [] \<or> children (s2 ! 0) \<noteq> []"
    by blast+
qed

lemma iteration_effect:
  assumes inv: "tree_inv rs s"
  shows "\<exists>s' g'. iteration fp draw rs s g = Some (s', g') \<and> tree_inv rs s'
           \<and> visits (s' ! 0) = visits (s ! 0) + 1
           \<and> (moves (s ! 0) = [] \<and> children (s ! 0) = []
                \<longrightarrow> moves (s' ! 0) = [] \<and> children (s' ! 0) = [])
           \<and> (moves (s ! 0) \<noteq> [] \<or> children (s ! 0) \<noteq> []
                \<longrightarrow> (moves (s' ! 0) \<noteq> [] \<or> children (s' ! 0) \<noteq> [])
                    \<and> root_children_visits s' = root_children_visits s + 1)"
proof -
  note z = tree_inv_root(1)[OF inv]
  have pl0: "GomokuState.player_to_move rs = Node.player_to_move (s ! 0)"
    using tree_inv_root(3)[OF inv] by simp
  from select_loop_total[OF inv z, where fp = fp and state = rs] pl0
  obtain s1 node1 state1 where sel: "select_loop fp s 0 rs = Some (s1, node1, state1)"
    and same1: "same_nodes s s1" and n1: "node1 < length s"
    and exit: "\<not> (\<not> has_untried_moves (s ! node1) \<and> has_children (s ! node1))"
    and pl1: "GomokuState.player_to_move state1 = Node.player_to_move (s ! node1)"
    by blast
  have len1: "length s1 = length s" by (rule same_nodes_length[OF same1])
  have inv1: "tree_inv rs s1"
    using inv same1 by (blast intro: tree_inv_same_links same_nodes_links)
  have n1': "node1 < length s1" using n1 len1 by simp
  have pl1': "GomokuState.player_to_move state1 = Node.player_to_move (s1 ! node1)"
    using pl1 same_nodes_nth(3)[OF same1 n1] by simp
  obtain s2 node2 state2 g2 where ex: "expand draw s1 node1 state1 g = (s2, node2, state2, g2)"
    by (cases "expand draw s1 node1 state1 g") auto
  note ee = expand_effect[OF inv1 n1' pl1' ex]
  obtain state3 g3 where po: "play_out draw state2 g2 = (state3, g3)"
    by (cases "play_out draw state2 g2") auto
  from backpropagate_root[OF ee(1,2), of state3] obtain s4 where
    bp: "backpropagate s2 state3 (Some node2) = Some s4" and links: "same_links s2 s4"
    and inv4: "tree_inv rs s4" and v4: "visits (s4 ! 0) = visits (s2 ! 0) + 1"
    and sum4: "node2 \<noteq> 0 \<longrightarrow> root_children_visits s4 = root_children_visits s2 + 1"
    by blast
  have it: "iteration fp draw rs s g = Some (s4, g3)"
    by (simp add: iteration_def sel ex po bp)
  have z2: "0 < length s2" using tree_inv_root(1)[OF ee(1)] .
  have root4: "moves (s4 ! 0) = moves (s2 ! 0)" "children (s4 ! 0) = children (s2 ! 0)"
    using links z2 by (simp_all add: same_links_def)
  have root1: "moves (s1 ! 0) = moves (s ! 0)" "children (s1 ! 0) = children (s ! 0)"
    "visits (s1 ! 0) = visits (s ! 0)"
    using same_nodes_nth(5,6,7)[OF same1 z] by simp_all
  have u1: "has_untried_moves (s1 ! node1) = has_untried_moves (s ! node1)"
    using same_nodes_nth(6)[OF same1 n1] by (simp add: has_untried_moves_def)
  have v: "visits (s4 ! 0) = visits (s ! 0) + 1"
    using v4 ee(3) root1(3) by simp
  have leaf: "moves (s4 ! 0) = [] \<and> children (s4 ! 0) = []"
    if l: "moves (s ! 0) = [] \<and> children (s ! 0) = []"
  proof -
    from l have "has_untried_moves (s ! 0) \<or> \<not> has_children (s ! 0)"
      by (simp add: has_children_def)
    from select_loop_stop[OF this, where fp = fp and state = rs] sel have "s1 = s" "node1 = 0" by simp_all
    with l have "\<not> has_untried_moves (s1 ! node1)"
      by (simp add: has_untried_moves_def)
    from ee(6)[OF this] \<open>s1 = s\<close> have "s2 = s" by simp
    with root4 l show ?thesis by simp
  qed
  have nonleaf: "(moves (s4 ! 0) \<noteq> [] \<or> children (s4 ! 0) \<noteq> [])
                    \<and> root_children_visits s4 = root_children_visits s + 1"
    if nl: "moves (s ! 0) \<noteq> [] \<or> children (s ! 0) \<noteq> []"
  proof -
    have "node2 \<noteq> 0"
    proof (cases "has_untried_moves (s1 ! node1)")
      case True
      from ee(5)[OF True] len1 z show ?thesis by simp
    next
      case False
      from ee(6)[OF False] have n2: "node2 = node1" by simp
      from False u1 exit have "moves (s ! node1) = [] \<and> children (s ! node1) = []"
        by (simp add: has_untried_moves_def has_children_def)
      with nl have "node1 \<noteq> 0" by (cases "node1 = 0") auto
      with n2 show ?thesis by simp
    qed
    with sum4 have "root_children_visits s4 = root_children_visits s2 + 1" by simp
    also have "root_children_visits s2 = root_children_visits s1" by (rule ee(4))
    also have "root_children_visits s1 = root_children_visits s"
      by (rule same_nodes_root_children_visits[OF inv same1])
    finally have sum: "root_children_visits s4 = root_children_visits s + 1" .
    from nl root1 have "moves (s1 ! 0) \<noteq> [] \<or> children (s1 ! 0) \<noteq> []" by simp
    from ee(7)[OF this] root4 sum show ?thesis by simp
  qed
  from it inv4 v leaf nonleaf show ?thesis
    by blast
qed

section \<open>The iteration loop\<close>

lemma tree_loop_partial:
  assumes run: "tree_loop fp uo el draw rs opts iter s g = Some s'"
    and step: "\<And>s g. Q s \<Longrightarrow> \<exists>s1 g1. iteration fp draw rs s g = Some (s1, g1) \<and> Q s1"
    and start: "Q s"
  shows "Q s'"
proof -
  have "fp = fp \<longrightarrow> draw = draw \<longrightarrow> rs = rs \<longrightarrow> Q s \<longrightarrow> Q s'"
  proof (rule tree_loop.raw_induct[where P = "\<lambda>fp' uo' el' draw' rs' opts' iter s g y.
            fp' = fp \<longrightarrow> draw' = draw \<longrightarrow> rs' = rs \<longrightarrow> Q s \<longrightarrow> Q y", OF _ run])
    fix loop :: "double_ops \<Rightarrow> bool \<Rightarrow> (int \<Rightarrow> real) \<Rightarrow> ('a \<Rightarrow> nat \<Rightarrow> nat \<times> 'a) \<Rightarrow> GomokuState
        \<Rightarrow> ComputeOptions \<Rightarrow> int \<Rightarrow> node_store \<Rightarrow> 'a \<Rightarrow> node_store option"
      and fp' uo' el' draw' rs' opts' iter' s0 g0 y
    assume ih: "\<And>z a b c d e f h i y. loop z a b c d e f h i = Some y \<Longrightarrow>
                  z = fp \<longrightarrow> c = draw \<longrightarrow> d = rs \<longrightarrow> Q h \<longrightarrow> Q y"
      and body: "(if iter' \<le> max_iterations opts' \<or> max_iterations opts' < 0
           then iteration fp' draw' rs' s0 g0 \<bind>
             (\<lambda>(s', g'). if uo' \<and> (verbose opts' \<or> 0 \<le> max_time opts') \<and> max_time opts' \<le> el' iter'
                          then Some s'
                          else loop fp' uo' el' draw' rs' opts' (iter' + 1) s' g')
           else Some s0) = Some y"
    show "fp' = fp \<longrightarrow> draw' = draw \<longrightarrow> rs' = rs \<longrightarrow> Q s0 \<longrightarrow> Q y"
    proof (intro impI)
      assume p: "fp' = fp" and d: "draw' = draw" and r: "rs' = rs" and q: "Q s0"
      show "Q y"
      proof (cases "iter' \<le> max_iterations opts' \<or> max_iterations opts' < 0")
        case False
        with body q show ?thesis by simp
      next
        case True
        from step[OF q, of g0] obtain s1 g1 where
          it: "iteration fp draw rs s0 g0 = Some (s1, g1)" and q1: "Q s1"
          by blast
        show ?thesis
        proof (cases "uo' \<and> (verbose opts' \<or> 0 \<le> max_time opts') \<and> max_time opts' \<le> el' iter'")
          case stop: True
          with body True it p d r have "y = s1" by simp
          with q1 show ?thesis by simp
        next
          case go: False
          with body True it p d r have "loop fp uo' el' draw rs opts' (iter' + 1) s1 g1 = Some y"
            by auto
          from ih[OF this] q1 show ?thesis by simp
        qed
      qed
    qed
  qed
  with start show ?thesis by simp
qed

lemma tree_loop_never:
  assumes unb: "max_iterations opts < 0"
    and nb: "\<not> (uo \<and> (verbose opts \<or> 0 \<le> max_time opts))"
  shows "tree_loop fp uo el draw rs opts iter s g = None"
proof (rule ccontr)
  assume "tree_loop fp uo el draw rs opts iter s g \<noteq> None"
  then obtain s' where run: "tree_loop fp uo el draw rs opts iter s g = Some s'"
    by auto
  have "uo = uo \<longrightarrow> opts = opts \<longrightarrow> False"
  proof (rule tree_loop.raw_induct[where P = "\<lambda>fp' uo' el' draw' rs' opts' iter s g y.
            uo' = uo \<longrightarrow> opts' = opts \<longrightarrow> False", OF _ run])
    fix loop :: "double_ops \<Rightarrow> bool \<Rightarrow> (int \<Rightarrow> real) \<Rightarrow> ('a \<Rightarrow> nat \<Rightarrow> nat \<times> 'a) \<Rightarrow> GomokuState
        \<Rightarrow> ComputeOptions \<Rightarrow> int \<Rightarrow> node_store \<Rightarrow> 'a \<Rightarrow> node_store option"
      and fp' uo' el' draw' rs' opts' iter' s0 g0 y
    assume ih: "\<And>z a b c d e f h i y. loop z a b c d e f h i = Some y \<Longrightarrow>
                  a = uo \<longrightarrow> e = opts \<longrightarrow> False"
      and body: "(if iter' \<le> max_iterations opts' \<or> max_iterations opts' < 0
           then iteration fp' draw' rs' s0 g0 \<bind>
             (\<lambda>(s', g'). if uo' \<and> (verbose opts' \<or> 0 \<le> max_time opts') \<and> max_time opts' \<le> el' iter'
                          then Some s'
                          else loop fp' uo' el' draw' rs' opts' (iter' + 1) s' g')
           else Some s0) = Some y"
    show "uo' = uo \<longrightarrow> opts' = opts \<longrightarrow> False"
    proof (intro impI)
      assume u: "uo' = uo" and o: "opts' = opts"
      from body unb nb u o obtain s1 g1 where
        "loop fp' uo el' draw' rs' opts (iter' + 1) s1 g1 = Some y"
        by (cases "iteration fp' draw' rs' s0 g0") auto
      from ih[OF this] show False by simp
    qed
  qed
  then show False by simp
qed

lemma tree_loop_bounded:
  assumes step: "\<And>s g k. P k s \<Longrightarrow> \<exists>s1 g1. iteration fp draw rs s g = Some (s1, g1) \<and> P (Suc k) s1"
    and bound: "0 \<le> max_iterations opts"
  shows "P k s \<Longrightarrow>
         \<exists>s' j. tree_loop fp uo el draw rs opts iter s g = Some s' \<and> P (k + j) s'
           \<and> j \<le> nat (max_iterations opts + 1 - iter)
           \<and> ((\<forall>i. iter \<le> i \<and> i \<le> max_iterations opts \<longrightarrow>
                  \<not> (uo \<and> (verbose opts \<or> 0 \<le> max_time opts) \<and> max_time opts \<le> el i))
                \<longrightarrow> j = nat (max_iterations opts + 1 - iter))"
proof (induction "nat (max_iterations opts + 1 - iter)" arbitrary: iter s g k)
  case 0
  then have "\<not> (iter \<le> max_iterations opts \<or> max_iterations opts < 0)"
    using bound by simp
  then have "tree_loop fp uo el draw rs opts iter s g = Some s"
    by (subst tree_loop.simps) simp
  with 0 show ?case
    by (intro exI[of _ s] exI[of _ 0]) simp
next
  case (Suc n)
  then have cond: "iter \<le> max_iterations opts" by simp
  from step[OF Suc.prems, of g] obtain s1 g1 where
    it: "iteration fp draw rs s g = Some (s1, g1)" and p1: "P (Suc k) s1"
    by blast
  show ?case
  proof (cases "uo \<and> (verbose opts \<or> 0 \<le> max_time opts) \<and> max_time opts \<le> el iter")
    case True
    with cond it have "tree_loop fp uo el draw rs opts iter s g = Some s1"
      by (subst tree_loop.simps) simp
    moreover have "\<not> (\<forall>i. iter \<le> i \<and> i \<le> max_iterations opts \<longrightarrow>
                  \<not> (uo \<and> (verbose opts \<or> 0 \<le> max_time opts) \<and> max_time opts \<le> el i))"
      using True cond by blast
    then have "(\<forall>i. iter \<le> i \<and> i \<le> max_iterations opts \<longrightarrow>
                  \<not> (uo \<and> (verbose opts \<or> 0 \<le> max_time opts) \<and> max_time opts \<le> el i))
                \<longrightarrow> 1 = nat (max_iterations opts + 1 - iter)"
      by blast
    moreover have "P (k + 1) s1" "1 \<le> nat (max_iterations opts + 1 - iter)"
      using p1 Suc.hyps(2) by simp_all
    ultimately show ?thesis by blast
  next
    case False
    with cond it have unf: "tree_loop fp uo el draw rs opts iter s g
                       = tree_loop fp uo el draw rs opts (iter + 1) s1 g1"
      by (subst tree_loop.simps) auto
    from Suc.hyps(2) have n: "n = nat (max_iterations opts + 1 - (iter + 1))" by simp
    from Suc.hyps(1)[OF n p1, of g1] obtain s' j where
      r: "tree_loop fp uo el draw rs opts (iter + 1) s1 g1 = Some s'" "P (Suc k + j) s'"
         "j \<le> nat (max_iterations opts + 1 - (iter + 1))"
         "(\<forall>i. iter + 1 \<le> i \<and> i \<le> max_iterations opts \<longrightarrow>
                  \<not> (uo \<and> (verbose opts \<or> 0 \<le> max_time opts) \<and> max_time opts \<le> el i))
                \<longrightarrow> j = nat (max_iterations opts + 1 - (iter + 1))"
      by blast
    have "tree_loop fp uo el draw rs opts iter s g = Some s' \<and> P (k + Suc j) s'
           \<and> Suc j \<le> nat (max_iterations opts + 1 - iter)
           \<and> ((\<forall>i. iter \<le> i \<and> i \<le> max_iterations opts \<longrightarrow>
                  \<not> (uo \<and> (verbose opts \<or> 0 \<le> max_time opts) \<and> max_time opts \<le> el i))
                \<longrightarrow> Suc j = nat (max_iterations opts + 1 - iter))"
      using r unf cond by auto
    then show ?thesis by blast
  qed
qed

section \<open>Trees built by \<open>compute_tree\<close>\<close>

lemma tree_inv_initial: "tree_inv rs [Node_root rs]"
  by (simp add: tree_inv_def Node_root_def)

lemma root_children_visits_initial: "root_children_visits [Node_root rs] = 0"
  by (simp add: root_children_visits_def Node_root_def)

lemma Node_root_fields:
  "visits (Node_root rs) = 0" "moves (Node_root rs) = get_moves rs"
  "children (Node_root rs) = []"
  by (simp_all add: Node_root_def)

lemma compute_tree_throws:
  assumes "0 \<le> max_time opts" and "\<not> uo"
  shows "compute_tree fp uo el draw rs opts seed = Some (Inl runtime_error)"
  using assms by (simp add: compute_tree_def)

lemma compute_tree_never:
  assumes "max_iterations opts < 0" and "max_time opts < 0" and "\<not> (uo \<and> verbose opts)"
  shows "compute_tree fp uo el draw rs opts seed = None"
proof -
  from assms have "\<not> (uo \<and> (verbose opts \<or> 0 \<le> max_time opts))" by auto
  from tree_loop_never[OF assms(1) this] assms(2) show ?thesis
    by (simp add: compute_tree_def)
qed

lemma compute_tree_bounded:
  assumes bound: "0 \<le> max_iterations opts" and clock: "max_time opts < 0 \<or> uo"
  shows "\<exists>s j. compute_tree fp uo el draw rs opts seed = Some (Inr s) \<and> tree_inv rs s
           \<and> visits (s ! 0) = int j \<and> j \<le> nat (max_iterations opts)
           \<and> ((\<forall>i. 1 \<le> i \<and> i \<le> max_iterations opts \<longrightarrow>
                  \<not> (uo \<and> (verbose opts \<or> 0 \<le> max_time opts) \<and> max_time opts \<le> el i))
                \<longrightarrow> j = nat (max_iterations opts))
           \<and> (get_moves rs = [] \<longrightarrow> moves (s ! 0) = [] \<and> children (s ! 0) = [])
           \<and> (get_moves rs \<noteq> [] \<longrightarrow> root_children_visits s = visits (s ! 0))"
proof -
  define P where "P = (\<lambda>(k::nat) s. tree_inv rs s \<and> visits (s ! 0) = int k
       \<and> (get_moves rs = [] \<longrightarrow> moves (s ! 0) = [] \<and> children (s ! 0) = [])
       \<and> (get_moves rs \<noteq> [] \<longrightarrow> (moves (s ! 0) \<noteq> [] \<or> children (s ! 0) \<noteq> [])
                                    \<and> root_children_visits s = int k))"
  have step: "\<exists>s1 g1. iteration fp draw rs s g = Some (s1, g1) \<and> P (Suc k) s1" if "P k s" for s g k
  proof -
    from that have inv: "tree_inv rs s" by (simp add: P_def)
    from iteration_effect[OF inv, where fp = fp and draw = draw and g = g] obtain s1 g1 where
      it: "iteration fp draw rs s g = Some (s1, g1)" "tree_inv rs s1"
        "visits (s1 ! 0) = visits (s ! 0) + 1"
        "moves (s ! 0) = [] \<and> children (s ! 0) = []
                \<longrightarrow> moves (s1 ! 0) = [] \<and> children (s1 ! 0) = []"
        "moves (s ! 0) \<noteq> [] \<or> children (s ! 0) \<noteq> []
                \<longrightarrow> (moves (s1 ! 0) \<noteq> [] \<or> children (s1 ! 0) \<noteq> [])
                    \<and> root_children_visits s1 = root_children_visits s + 1"
      by blast
    have "P (Suc k) s1"
    proof (cases "get_moves rs = []")
      case True
      with that it show ?thesis by (simp add: P_def)
    next
      case False
      with that have nl: "moves (s ! 0) \<noteq> [] \<or> children (s ! 0) \<noteq> []"
        and sum: "root_children_visits s = int k" and v: "visits (s ! 0) = int k"
        by (simp_all add: P_def)
      from it(5) nl sum have "(moves (s1 ! 0) \<noteq> [] \<or> children (s1 ! 0) \<noteq> [])
                    \<and> root_children_visits s1 = int (Suc k)"
        by simp
      with False it(2,3) v show ?thesis by (simp add: P_def)
    qed
    with it(1) show ?thesis by blast
  qed
  have start: "P 0 [Node_root rs]"
    by (simp add: P_def tree_inv_initial root_children_visits_initial Node_root_fields)
  from tree_loop_bounded[where P = P and fp = fp and draw = draw and rs = rs and opts = opts and k = 0
      and s = "[Node_root rs]" and uo = uo and el = el and iter = 1 and g = seed, OF step bound start]
  obtain s' j where r: "tree_loop fp uo el draw rs opts 1 [Node_root rs] seed = Some s'"
    "P (0 + j) s'" "j \<le> nat (max_iterations opts + 1 - 1)"
    "(\<forall>i. 1 \<le> i \<and> i \<le> max_iterations opts \<longrightarrow>
                  \<not> (uo \<and> (verbose opts \<or> 0 \<le> max_time opts) \<and> max_time opts \<le> el i))
                \<longrightarrow> j = nat (max_iterations opts + 1 - 1)"
    by blast
  from clock r(1) have ct: "compute_tree fp uo el draw rs opts seed = Some (Inr s')"
    by (auto simp: compute_tree_def)
  from r(2) have p: "tree_inv rs s'" "visits (s' ! 0) = int j"
    "get_moves rs = [] \<longrightarrow> moves (s' ! 0) = [] \<and> children (s' ! 0) = []"
    "get_moves rs \<noteq> [] \<longrightarrow> root_children_visits s' = visits (s' ! 0)"
    by (simp_all add: P_def)
  from ct p r(3,4) show ?thesis
    by (intro exI[of _ s'] exI[of _ j]) simp
qed

lemma compute_tree_partial:
  assumes run: "compute_tree fp uo el draw rs opts seed = Some (Inr s)"
  shows "tree_inv rs s"
    and "get_moves rs = [] \<Longrightarrow> moves (s ! 0) = [] \<and> children (s ! 0) = []"
    and "get_moves rs \<noteq> [] \<Longrightarrow> root_children_visits s = visits (s ! 0)"
proof -
  define Q where "Q = (\<lambda>s. tree_inv rs s
       \<and> (get_moves rs = [] \<longrightarrow> moves (s ! 0) = [] \<and> children (s ! 0) = [])
       \<and> (get_moves rs \<noteq> [] \<longrightarrow> (moves (s ! 0) \<noteq> [] \<or> children (s ! 0) \<noteq> [])
                                    \<and> root_children_visits s = visits (s ! 0)))"
  have step: "\<exists>s1 g1. iteration fp draw rs s g = Some (s1, g1) \<and> Q s1" if "Q s" for s g
  proof -
    from that have inv: "tree_inv rs s" by (simp add: Q_def)
    from iteration_effect[OF inv, where fp = fp and draw = draw and g = g] obtain s1 g1 where
      it: "iteration fp draw rs s g = Some (s1, g1)" "tree_inv rs s1"
        "visits (s1 ! 0) = visits (s ! 0) + 1"
        "moves (s ! 0) = [] \<and> children (s ! 0) = []
                \<longrightarrow> moves (s1 ! 0) = [] \<and> children (s1 ! 0) = []"
        "moves (s ! 0) \<noteq> [] \<or> children (s ! 0) \<noteq> []
                \<longrightarrow> (moves (s1 ! 0) \<noteq> [] \<or> children (s1 ! 0) \<noteq> [])
                    \<and> root_children_visits s1 = root_children_visits s + 1"
      by blast
    have "Q s1"
    proof (cases "get_moves rs = []")
      case True
      with that it show ?thesis by (simp add: Q_def)
    next
      case False
      with that have nl: "moves (s ! 0) \<noteq> [] \<or> children (s ! 0) \<noteq> []"
        and sum: "root_children_visits s = visits (s ! 0)"
        by (simp_all add: Q_def)
      from it(5) nl sum it(3) have "(moves (s1 ! 0) \<noteq> [] \<or> children (s1 ! 0) \<noteq> [])
                    \<and> root_children_visits s1 = visits (s1 ! 0)"
        by simp
      with False it(2) show ?thesis by (simp add: Q_def)
    qed
    with it(1) show ?thesis by blast
  qed
  have start: "Q [Node_root rs]"
    by (simp add: Q_def tree_inv_initial root_children_visits_initial Node_root_fields)
  from run have "tree_loop fp uo el draw rs opts 1 [Node_root rs] seed = Some s"
    by (auto simp: compute_tree_def split: if_splits)
  from tree_loop_partial[where Q = Q, OF this step start]
  have "Q s" .
  then show "tree_inv rs s"
    and "get_moves rs = [] \<Longrightarrow> moves (s ! 0) = [] \<and> children (s ! 0) = []"
    and "get_moves rs \<noteq> [] \<Longrightarrow> root_children_visits s = visits (s ! 0)"
    by (simp_all add: Q_def)
qed

lemma compute_tree_verbose_stops:
  assumes "uo" and "verbose opts" and "max_time opts \<le> el 1" and "1 \<le> max_iterations opts"
  shows "\<exists>s. compute_tree fp uo el draw rs opts seed = Some (Inr s) \<and> visits (s ! 0) = 1"
proof -
  from iteration_effect[OF tree_inv_initial, where fp = fp and draw = draw and rs = rs and g = seed]
  obtain s1 g1 where
    it: "iteration fp draw rs [Node_root rs] seed = Some (s1, g1)"
      "visits (s1 ! 0) = visits ([Node_root rs] ! 0) + 1"
    by blast
  from assms it(1) have "tree_loop fp uo el draw rs opts 1 [Node_root rs] seed = Some s1"
    by (subst tree_loop.simps) simp
  with assms(1) have "compute_tree fp uo el draw rs opts seed = Some (Inr s1)"
    by (simp add: compute_tree_def)
  moreover from it(2) have "visits (s1 ! 0) = 1"
    by (simp add: Node_root_fields)
  ultimately show ?thesis by blast
qed

section \<open>The moves returned by \<open>compute_move\<close>\<close>

lemma those_map_const: "those (map (\<lambda>t. Some (h t)) xs) = Some (map h xs)"
  by (induction xs) simp_all

lemma those_map_None: "xs \<noteq> [] \<Longrightarrow> those (map (\<lambda>t. None) xs) = None"
  by (cases xs) simp_all

lemma jobs_all_return:
  assumes "\<And>t. \<exists>s. f t = Some (Inr s) \<and> R s"
  shows "\<exists>rs ss. those (map f xs) = Some rs \<and> collect_roots rs = Inr ss \<and> (\<forall>s\<in>set ss. R s)"
proof (induction xs)
  case Nil
  show ?case by simp
next
  case (Cons x xs)
  from assms[of x] obtain s where s: "f x = Some (Inr s)" "R s" by blast
  from Cons obtain rs ss where r: "those (map f xs) = Some rs" "collect_roots rs = Inr ss"
    "\<forall>s\<in>set ss. R s"
    by blast
  have "those (map f (x # xs)) = Some (Inr s # rs) \<and> collect_roots (Inr s # rs) = Inr (s # ss)
      \<and> (\<forall>s'\<in>set (s # ss). R s')"
    using s r by simp
  then show ?case by blast
qed

lemma merge_roots_no_children:
  assumes "\<forall>r\<in>set roots. children (r ! 0) = []"
  shows "\<exists>games_played. merge_roots roots = ([], [], games_played)"
proof -
  obtain vmap wmap games_played where m: "merge_roots roots = (vmap, wmap, games_played)"
    by (cases "merge_roots roots") auto
  from merge_roots_sums(4,5)[OF m] assms have "set vmap = {}" "set wmap = {}"
    by simp_all
  with m show ?thesis by simp
qed

lemma select_best_empty: "select_best fp [] wmap = (0, 0)"
  by (simp add: select_best_def)

lemma compute_move_terminal_root:
  assumes terminal: "get_moves rs = []" and bound: "0 \<le> max_iterations opts"
    and clock: "max_time opts < 0 \<or> uo"
  shows "compute_move fp uo el draw seed rs opts = Some (Inr (0, 0))"
proof -
  let ?job = "\<lambda>t. compute_tree fp uo (el t) draw rs (opts\<lparr> verbose := False \<rparr>) seed"
  have "\<exists>s. ?job t = Some (Inr s) \<and> children (s ! 0) = []" for t
    using compute_tree_bounded[where opts = "opts\<lparr> verbose := False \<rparr>" and uo = uo and el = "el t"
        and fp = fp and draw = draw and rs = rs and seed = seed] bound clock terminal
    by auto
  from jobs_all_return[of ?job "\<lambda>s. children (s ! 0) = []" "[0..<nat (number_of_threads opts)]", OF this]
  obtain rs' ss where j: "those (map ?job [0..<nat (number_of_threads opts)]) = Some rs'"
    "collect_roots rs' = Inr ss" "\<forall>s\<in>set ss. children (s ! 0) = []"
    by blast
  from merge_roots_no_children[OF j(3)] obtain gp where m: "merge_roots ss = ([], [], gp)"
    by blast
  from terminal j(1,2) m show ?thesis
    by (simp add: compute_move_def Let_def select_best_empty)
qed

lemma compute_move_no_threads:
  assumes "length (get_moves rs) \<noteq> 1" and "number_of_threads opts < 1"
  shows "compute_move fp uo el draw seed rs opts = Some (Inr (0, 0))"
  using assms by (simp add: compute_move_def Let_def merge_roots_def select_best_empty)

lemma compute_move_throws:
  assumes "length (get_moves rs) \<noteq> 1" and "1 \<le> number_of_threads opts"
    and "0 \<le> max_time opts" and "\<not> uo"
  shows "compute_move fp uo el draw seed rs opts = Some (Inl runtime_error)"
proof -
  let ?n = "nat (number_of_threads opts)"
  have job: "compute_tree fp uo (el t) draw rs (opts\<lparr> verbose := False \<rparr>) seed = Some (Inl runtime_error)"
    for t
    using assms(3,4) by (simp add: compute_tree_throws)
  from assms(2) have up: "[0..<?n] = 0 # [1..<?n]"
    by (simp add: upt_conv_Cons)
  have "those (map (\<lambda>t. compute_tree fp uo (el t) draw rs (opts\<lparr> verbose := False \<rparr>) seed) [0..<?n])
          = Some (map (\<lambda>t. Inl runtime_error) [0..<?n])"
    unfolding job by (rule those_map_const)
  moreover have "collect_roots (map (\<lambda>t. Inl runtime_error) [0..<?n]) = Inl runtime_error"
    unfolding up by simp
  ultimately show ?thesis
    using assms(1) by (simp add: compute_move_def Let_def)
qed

lemma compute_move_never:
  assumes "length (get_moves rs) \<noteq> 1" and "1 \<le> number_of_threads opts"
    and "max_iterations opts < 0" and "max_time opts < 0"
  shows "compute_move fp uo el draw seed rs opts = None"
proof -
  let ?n = "nat (number_of_threads opts)"
  have job: "compute_tree fp uo (el t) draw rs (opts\<lparr> verbose := False \<rparr>) seed = None" for t
    using assms(3,4) by (simp add: compute_tree_never)
  from assms(2) have "[0..<?n] \<noteq> []" by simp
  then have "those (map (\<lambda>t. compute_tree fp uo (el t) draw rs (opts\<lparr> verbose := False \<rparr>) seed) [0..<?n])
          = None"
    unfolding job by (rule those_map_None)
  then show ?thesis
    using assms(1) by (simp add: compute_move_def Let_def)
qed

lemma get_untried_move_mem:
  assumes "has_untried_moves n" and "get_untried_move draw n g = (mv, g')"
  shows "mv \<in> set (moves n)"
proof -
  obtain k g0 where d: "draw g (length (moves n)) = (k, g0)"
    by (cases "draw g (length (moves n))")
  from assms(1) have "k mod length (moves n) < length (moves n)"
    by (simp add: has_untried_moves_def)
  then have "moves n ! (k mod length (moves n)) \<in> set (moves n)"
    by (rule nth_mem)
  with assms(2) d show ?thesis
    by (simp add: get_untried_move_def uniform_int_def)
qed

lemma expand_new_node:
  assumes node: "node < length s" and unt: "has_untried_moves (s ! node)"
    and e: "expand draw s node state g = (s', node', state', g')"
  shows "node' = length s" and "length s' = Suc (length s)"
    and "s' ! node' = Node_child state' (move (s' ! node')) node"
    and "move (s' ! node') \<in> set (moves (s ! node))"
    and "state' = do_move state (move (s' ! node'))"
    and "Node.player_to_move (s' ! node') = GomokuState.player_to_move state'"
    and "Node.player_to_move (s' ! node') = 3 - GomokuState.player_to_move state"
    and "backpropagate s' final (Some node') =
           backpropagate (update s' node' (get_result final (3 - GomokuState.player_to_move state)))
             final (Some node)"
proof -
  obtain mv g1 where gm: "get_untried_move draw (s ! node) g = (mv, g1)"
    by (cases "get_untried_move draw (s ! node) g") auto
  define st where "st = do_move state mv"
  obtain sa na where add: "add_child s node mv st = (sa, na)"
    by (cases "add_child s node mv st") auto
  from e unt gm add have eq: "s' = sa" "node' = na" "state' = st"
    by (simp_all add: expand_def Let_def st_def)
  note n = add_child_nth[OF node add]
  have new: "s' ! node' = Node_child st mv node"
    using n(1,3) eq by simp
  then have mv: "move (s' ! node') = mv"
    by (simp add: Node_child_def)
  show "node' = length s" using n(1) eq by simp
  show "length s' = Suc (length s)" using n(2) eq by simp
  show "s' ! node' = Node_child state' (move (s' ! node')) node"
    using new mv eq by simp
  show "move (s' ! node') \<in> set (moves (s ! node))"
    unfolding mv by (rule get_untried_move_mem[OF unt gm])
  show st': "state' = do_move state (move (s' ! node'))"
    using eq mv by (simp add: st_def)
  show pl: "Node.player_to_move (s' ! node') = GomokuState.player_to_move state'"
    using new eq by (simp add: Node_child_def)
  show pl2: "Node.player_to_move (s' ! node') = 3 - GomokuState.player_to_move state"
    using new by (simp add: Node_child_def st_def do_move_player)
  have par: "parent (s' ! node') = Some node"
    using new by (simp add: Node_child_def)
  show "backpropagate s' final (Some node') =
           backpropagate (update s' node' (get_result final (3 - GomokuState.player_to_move state)))
             final (Some node)"
    by (subst backpropagate.simps) (simp add: Let_def update_fields par pl2)
qed

section \<open>The player stored in a node\<close>

lemma first_expansion_value:
  "fst (snd first_expansion) = 1"
  "move (fst first_expansion ! 1) = (0, 0)"
  "Node.player_to_move (fst first_expansion ! 1) = 2"
  "GomokuState.player_to_move (GomokuState_new 3) = 1"
  unfolding first_expansion_def by code_simp+

text \<open>
  In every tree that \<open>compute_tree\<close> returns, the root stores the player to move in the root
  position and every other node stores the opponent of the player its parent stores.
\<close>

lemma compute_tree_players:
  assumes "compute_tree fp uo el draw rs opts seed = Some (Inr s)"
  shows "Node.player_to_move (s ! 0) = GomokuState.player_to_move rs"
    and "i < length s \<Longrightarrow> 0 < i \<Longrightarrow>
           \<exists>p<i. parent (s ! i) = Some p
                 \<and> Node.player_to_move (s ! i) = 3 - Node.player_to_move (s ! p)"
proof -
  note inv = compute_tree_partial(1)[OF assms]
  show "Node.player_to_move (s ! 0) = GomokuState.player_to_move rs"
    by (rule tree_inv_root(3)[OF inv])
  assume i: "i < length s" "0 < i"
  show "\<exists>p<i. parent (s ! i) = Some p
                 \<and> Node.player_to_move (s ! i) = 3 - Node.player_to_move (s ! p)"
  proof (cases "parent (s ! i)")
    case None
    from tree_inv_parent(1)[OF inv i(1) None] i(2) show ?thesis by simp
  next
    case (Some p)
    from tree_inv_parent(2)[OF inv i(1) Some] Some show ?thesis by blast
  qed
qed

text \<open>
  Claim C3, as amended. The node that an expansion creates stores the player to move in the
  position reached by its move, that is after the move was played: the opponent \<open>3 - p\<close> of
  the player \<open>p\<close> who was to move before and played it. The new node is the last of the heap,
  its move is one of the untried moves of the expanded node, and backpropagation, which
  starts at it, credits it with \<open>get_result\<close> at this stored player before going on to the
  expanded node.
\<close>

theorem expand_stores_next_player:
  assumes "node < length s" and "has_untried_moves (s ! node)"
    and "expand draw s node state g = (s', node', state', g')"
  shows "node' = length s \<and> length s' = Suc (length s)
       \<and> s' ! node' = Node_child state' (move (s' ! node')) node
       \<and> move (s' ! node') \<in> set (moves (s ! node))
       \<and> state' = do_move state (move (s' ! node'))
       \<and> Node.player_to_move (s' ! node') = GomokuState.player_to_move state'
       \<and> Node.player_to_move (s' ! node') = 3 - GomokuState.player_to_move state
       \<and> (\<forall>final. backpropagate s' final (Some node') =
             backpropagate
               (update s' node' (get_result final (3 - GomokuState.player_to_move state)))
               final (Some node))"
  using expand_new_node[OF assms] by blast

theorem expand_stores_next_player_witness:
  "0 < length [Node_root (GomokuState_new 3)]
     \<and> has_untried_moves ([Node_root (GomokuState_new 3)] ! 0)
     \<and> Node.player_to_move (fst first_expansion ! fst (snd first_expansion))
         = 3 - GomokuState.player_to_move (GomokuState_new 3)
     \<and> Node.player_to_move (fst first_expansion ! fst (snd first_expansion)) = 2"
proof -
  have a: "0 < length [Node_root (GomokuState_new 3)]" by simp
  have b: "has_untried_moves ([Node_root (GomokuState_new 3)] ! 0)"
    by code_simp
  have c: "expand (\<lambda>g n. (g, g + 1)) [Node_root (GomokuState_new 3)] 0 (GomokuState_new 3) (0::nat)
             = (fst first_expansion, fst (snd first_expansion), fst (snd (snd first_expansion)),
                snd (snd (snd first_expansion)))"
    by (simp add: first_expansion_def)
  from expand_stores_next_player[OF a b c]
  have d: "Node.player_to_move (fst first_expansion ! fst (snd first_expansion))
             = 3 - GomokuState.player_to_move (GomokuState_new 3)"
    by blast
  have e: "Node.player_to_move (fst first_expansion ! fst (snd first_expansion)) = 2"
    unfolding d first_expansion_value(4) by simp
  from a b d e show ?thesis
    by blast
qed

text \<open>
  Claim C3 as stated fails: on the empty board player 1 is to move; the node created for
  the move (0, 0), which player 1 plays, stores player 2.
\<close>

theorem expand_player_counterexample:
  "GomokuState.player_to_move (GomokuState_new 3) = 1
     \<and> fst (snd first_expansion) = 1
     \<and> move (fst first_expansion ! 1) = (0, 0)
     \<and> Node.player_to_move (fst first_expansion ! 1) \<noteq> 1"
  using first_expansion_value by simp

section \<open>Properties of \<open>compute_tree\<close> and \<open>compute_move\<close>\<close>

lemma empty_board_moves: "length (get_moves (GomokuState_new 3)) = 9"
  by code_simp

text \<open>
  With a budget of \<open>n\<close> iterations, no time limit and no verbose output in an OpenMP build,
  \<open>compute_tree\<close> returns a tree whose root has been visited \<open>n\<close> times.
\<close>

lemma compute_tree_visits:
  assumes "0 \<le> max_iterations opts" and "max_time opts < 0" and "\<not> (uo \<and> verbose opts)"
  shows "\<exists>s. compute_tree fp uo el draw rs opts seed = Some (Inr s)
           \<and> visits (s ! 0) = max_iterations opts"
proof -
  from assms have nb: "\<forall>i. 1 \<le> i \<and> i \<le> max_iterations opts \<longrightarrow>
                  \<not> (uo \<and> (verbose opts \<or> 0 \<le> max_time opts) \<and> max_time opts \<le> el i)"
    by auto
  from compute_tree_bounded[where opts = opts and uo = uo and el = el and fp = fp and draw = draw
      and rs = rs and seed = seed] assms(1,2) nb
  obtain s j where "compute_tree fp uo el draw rs opts seed = Some (Inr s)"
    "visits (s ! 0) = int j" "j = nat (max_iterations opts)"
    by blast
  with assms(1) show ?thesis by simp
qed

text \<open>
  Claim C1, as amended. On a root position without legal moves \<open>compute_move\<close> does not
  return at once: it runs its jobs as on any other position. When the iteration budget is
  finite and the time limit is absent or can be measured, every job returns a tree whose
  root has no children, after all its iterations when there is no time limit; nothing is
  merged, and \<open>compute_move\<close> returns the default-constructed move (0, 0), which is not
  \<open>no_move\<close>, without an error.
\<close>

theorem terminal_root_default_move:
  assumes "get_moves root_state = []" and "0 \<le> max_iterations options"
    and "max_time options < 0 \<or> use_openmp"
  shows "compute_move fp use_openmp elapsed draw seed root_state options = Some (Inr (0, 0))
       \<and> (0, 0) \<noteq> no_move
       \<and> (\<forall>t. \<exists>s. compute_tree fp use_openmp (elapsed t) draw root_state
                      (options\<lparr> verbose := False \<rparr>) seed = Some (Inr s)
                  \<and> children (s ! 0) = []
                  \<and> (max_time options < 0 \<longrightarrow> visits (s ! 0) = max_iterations options))"
proof -
  have jobs: "\<exists>s. compute_tree fp use_openmp (elapsed t) draw root_state
                      (options\<lparr> verbose := False \<rparr>) seed = Some (Inr s)
                  \<and> children (s ! 0) = []
                  \<and> (max_time options < 0 \<longrightarrow> visits (s ! 0) = max_iterations options)" for t
  proof -
    let ?o = "options\<lparr> verbose := False \<rparr>"
    from compute_tree_bounded[where opts = ?o and uo = use_openmp and el = "elapsed t" and fp = fp
        and draw = draw and rs = root_state and seed = seed] assms
    obtain s where s: "compute_tree fp use_openmp (elapsed t) draw root_state ?o seed = Some (Inr s)"
      "children (s ! 0) = []"
      by auto
    have "visits (s ! 0) = max_iterations options" if "max_time options < 0"
      using compute_tree_visits[where opts = ?o and uo = use_openmp and el = "elapsed t" and fp = fp
          and draw = draw and rs = root_state and seed = seed] assms(2) that s(1)
      by auto
    with s show ?thesis by blast
  qed
  from compute_move_terminal_root[OF assms] jobs show ?thesis
    by (simp add: no_move_def)
qed

theorem terminal_root_default_move_witness:
  "\<forall>fp. get_moves finished_game = [] \<and> 0 \<le> max_iterations ComputeOptions_new
     \<and> max_time ComputeOptions_new < 0
     \<and> compute_move fp True (\<lambda>t i. 0) (\<lambda>g n. (g, g + 1)) (0::nat) finished_game ComputeOptions_new
         = Some (Inr (0, 0))"
proof
  fix fp
  have a: "get_moves finished_game = []" by (rule finished_game_no_moves)
  have b: "0 \<le> max_iterations ComputeOptions_new" "max_time ComputeOptions_new < 0"
    by (simp_all add: ComputeOptions_new_def)
  from b(2) have c: "max_time ComputeOptions_new < 0 \<or> True" by simp
  from terminal_root_default_move[OF a b(1) c,
      where fp = fp and elapsed = "\<lambda>t i. 0" and draw = "\<lambda>g n. (g, g + 1)"
        and seed = "0::nat"]
  have "compute_move fp True (\<lambda>t i. 0) (\<lambda>g n. (g, g + 1)) (0::nat) finished_game ComputeOptions_new
         = Some (Inr (0, 0))"
    by (rule conjunct1)
  with a b show "get_moves finished_game = [] \<and> 0 \<le> max_iterations ComputeOptions_new
     \<and> max_time ComputeOptions_new < 0
     \<and> compute_move fp True (\<lambda>t i. 0) (\<lambda>g n. (g, g + 1)) (0::nat) finished_game ComputeOptions_new
         = Some (Inr (0, 0))"
    by simp
qed

text \<open>
  Claim C1 as stated fails: in \<open>finished_game\<close> there are no legal moves, and \<open>compute_move\<close>
  with the default options returns (0, 0), not \<open>no_move\<close>.
\<close>

theorem terminal_root_not_no_move_counterexample:
  "\<forall>fp. get_moves finished_game = []
     \<and> compute_move fp True (\<lambda>t i. 0) (\<lambda>g n. (g, g + 1)) (0::nat) finished_game ComputeOptions_new
         \<noteq> Some (Inr no_move)"
proof
  fix fp
  have "compute_move fp True (\<lambda>t i. 0) (\<lambda>g n. (g, g + 1)) (0::nat) finished_game ComputeOptions_new
          = Some (Inr (0, 0))"
    by (rule compute_move_terminal_root)
       (simp_all add: finished_game_no_moves ComputeOptions_new_def)
  then show "get_moves finished_game = []
     \<and> compute_move fp True (\<lambda>t i. 0) (\<lambda>g n. (g, g + 1)) (0::nat) finished_game ComputeOptions_new
         \<noteq> Some (Inr no_move)"
    by (simp add: finished_game_no_moves no_move_def)
qed

text \<open>
  Claim C5 at a failing input. In an OpenMP build, with the default \<open>max_time = -1\<close>,
  \<open>max_iterations = 2\<close> and \<open>verbose = true\<close>, \<open>compute_tree\<close> on the empty 3 by 3 board leaves
  the loop at the end of the first iteration, the time read being at least \<open>max_time\<close>: the
  root of the tree returned has one visit, not two.
\<close>

theorem compute_tree_verbose_one_visit:
  "\<forall>fp. \<exists>s. compute_tree fp True (\<lambda>i. 0) (\<lambda>g n. (g, g + 1)) (GomokuState_new 3)
          (ComputeOptions_new\<lparr> max_iterations := 2, verbose := True \<rparr>) (0::nat) = Some (Inr s)
       \<and> visits (s ! 0) = 1"
  by (rule allI, rule compute_tree_verbose_stops) (simp_all add: ComputeOptions_new_def)

text \<open>
  Claim C9, as amended. \<open>compute_move\<close> does not examine the options. On a root position
  that does not have exactly one legal move: with \<open>number_of_threads < 1\<close> it starts no job
  and returns the default-constructed move (0, 0) without an error; with at least one job
  and a time limit in a build without \<open>USE_OPENMP\<close>, every job throws at the start of
  \<open>compute_tree\<close> and the error reaches the caller when the results are collected; with at
  least one job and both budgets unbounded, it does not return.
\<close>

theorem compute_move_unchecked_options:
  assumes "length (get_moves root_state) \<noteq> 1"
  shows "(number_of_threads options < 1 \<longrightarrow>
            compute_move fp use_openmp elapsed draw seed root_state options = Some (Inr (0, 0)))
       \<and> (1 \<le> number_of_threads options \<and> 0 \<le> max_time options \<and> \<not> use_openmp \<longrightarrow>
            compute_move fp use_openmp elapsed draw seed root_state options = Some (Inl runtime_error))
       \<and> (1 \<le> number_of_threads options \<and> max_iterations options < 0 \<and> max_time options < 0 \<longrightarrow>
            compute_move fp use_openmp elapsed draw seed root_state options = None)"
proof (intro conjI impI)
  assume "number_of_threads options < 1"
  with assms show "compute_move fp use_openmp elapsed draw seed root_state options = Some (Inr (0, 0))"
    by (rule compute_move_no_threads)
next
  assume "1 \<le> number_of_threads options \<and> 0 \<le> max_time options \<and> \<not> use_openmp"
  then have "1 \<le> number_of_threads options" "0 \<le> max_time options" "\<not> use_openmp"
    by simp_all
  with assms show "compute_move fp use_openmp elapsed draw seed root_state options
                     = Some (Inl runtime_error)"
    by (rule compute_move_throws)
next
  assume "1 \<le> number_of_threads options \<and> max_iterations options < 0 \<and> max_time options < 0"
  then have "1 \<le> number_of_threads options" "max_iterations options < 0" "max_time options < 0"
    by simp_all
  with assms show "compute_move fp use_openmp elapsed draw seed root_state options = None"
    by (rule compute_move_never)
qed

theorem compute_move_unchecked_options_witness:
  "\<forall>fp. length (get_moves (GomokuState_new 3)) \<noteq> 1
     \<and> compute_move fp True (\<lambda>t i. 0) (\<lambda>g n. (g, g + 1)) (0::nat) (GomokuState_new 3)
         (ComputeOptions_new\<lparr> number_of_threads := 0 \<rparr>) = Some (Inr (0, 0))
     \<and> compute_move fp False (\<lambda>t i. 0) (\<lambda>g n. (g, g + 1)) (0::nat) (GomokuState_new 3)
         (ComputeOptions_new\<lparr> max_time := 5 \<rparr>) = Some (Inl runtime_error)
     \<and> compute_move fp True (\<lambda>t i. 0) (\<lambda>g n. (g, g + 1)) (0::nat) (GomokuState_new 3)
         (ComputeOptions_new\<lparr> max_iterations := - 1 \<rparr>) = None"
proof
  fix fp
  have a: "length (get_moves (GomokuState_new 3)) \<noteq> 1"
    by (simp add: empty_board_moves)
  note u = compute_move_unchecked_options[OF a]
  from u[of "ComputeOptions_new\<lparr> number_of_threads := 0 \<rparr>" fp True "\<lambda>t i. 0" "\<lambda>g n. (g, g + 1)" "0::nat"]
  have n0: "compute_move fp True (\<lambda>t i. 0) (\<lambda>g n. (g, g + 1)) (0::nat) (GomokuState_new 3)
         (ComputeOptions_new\<lparr> number_of_threads := 0 \<rparr>) = Some (Inr (0, 0))"
    by (simp add: ComputeOptions_new_def)
  from u[of "ComputeOptions_new\<lparr> max_time := 5 \<rparr>" fp False "\<lambda>t i. 0" "\<lambda>g n. (g, g + 1)" "0::nat"]
  have th: "compute_move fp False (\<lambda>t i. 0) (\<lambda>g n. (g, g + 1)) (0::nat) (GomokuState_new 3)
         (ComputeOptions_new\<lparr> max_time := 5 \<rparr>) = Some (Inl runtime_error)"
    by (simp add: ComputeOptions_new_def)
  from u[of "ComputeOptions_new\<lparr> max_iterations := - 1 \<rparr>" fp True "\<lambda>t i. 0" "\<lambda>g n. (g, g + 1)" "0::nat"]
  have nv: "compute_move fp True (\<lambda>t i. 0) (\<lambda>g n. (g, g + 1)) (0::nat) (GomokuState_new 3)
         (ComputeOptions_new\<lparr> max_iterations := - 1 \<rparr>) = None"
    by (simp add: ComputeOptions_new_def)
  from a n0 th nv show "length (get_moves (GomokuState_new 3)) \<noteq> 1
     \<and> compute_move fp True (\<lambda>t i. 0) (\<lambda>g n. (g, g + 1)) (0::nat) (GomokuState_new 3)
         (ComputeOptions_new\<lparr> number_of_threads := 0 \<rparr>) = Some (Inr (0, 0))
     \<and> compute_move fp False (\<lambda>t i. 0) (\<lambda>g n. (g, g + 1)) (0::nat) (GomokuState_new 3)
         (ComputeOptions_new\<lparr> max_time := 5 \<rparr>) = Some (Inl runtime_error)
     \<and> compute_move fp True (\<lambda>t i. 0) (\<lambda>g n. (g, g + 1)) (0::nat) (GomokuState_new 3)
         (ComputeOptions_new\<lparr> max_iterations := - 1 \<rparr>) = None"
    by blast
qed

text \<open>
  Claim C9 as stated fails: with \<open>number_of_threads = 0\<close> on the empty 3 by 3 board,
  \<open>compute_move\<close> returns a move and no error.
\<close>

theorem no_threads_returns_move_counterexample:
  "\<forall>fp. number_of_threads (ComputeOptions_new\<lparr> number_of_threads := 0 \<rparr>) < 1
     \<and> compute_move fp True (\<lambda>t i. 0) (\<lambda>g n. (g, g + 1)) (0::nat) (GomokuState_new 3)
         (ComputeOptions_new\<lparr> number_of_threads := 0 \<rparr>) = Some (Inr (0, 0))"
proof
  fix fp
  have "compute_move fp True (\<lambda>t i. 0) (\<lambda>g n. (g, g + 1)) (0::nat) (GomokuState_new 3)
         (ComputeOptions_new\<lparr> number_of_threads := 0 \<rparr>) = Some (Inr (0, 0))"
    by (rule compute_move_no_threads) (simp_all add: empty_board_moves)
  then show "number_of_threads (ComputeOptions_new\<lparr> number_of_threads := 0 \<rparr>) < 1
     \<and> compute_move fp True (\<lambda>t i. 0) (\<lambda>g n. (g, g + 1)) (0::nat) (GomokuState_new 3)
         (ComputeOptions_new\<lparr> number_of_threads := 0 \<rparr>) = Some (Inr (0, 0))"
    by simp
qed

text \<open>
  Claim C10. When the root position has legal moves, in every tree that \<open>compute_tree\<close>
  returns the visit counts of the root's direct children add up to the visit count of the
  root; and \<open>compute_tree\<close> does return a tree when the iteration budget is finite and the
  time limit is absent or can be measured.
\<close>

theorem root_children_visits_conserved:
  assumes "get_moves root_state \<noteq> []"
  shows "(\<forall>s. compute_tree fp use_openmp elapsed draw root_state options seed = Some (Inr s)
              \<longrightarrow> root_children_visits s = visits (s ! 0))
       \<and> (0 \<le> max_iterations options \<and> (max_time options < 0 \<or> use_openmp)
              \<longrightarrow> (\<exists>s. compute_tree fp use_openmp elapsed draw root_state options seed = Some (Inr s)))"
proof (intro conjI allI impI)
  fix s
  assume "compute_tree fp use_openmp elapsed draw root_state options seed = Some (Inr s)"
  from compute_tree_partial(3)[OF this assms] show "root_children_visits s = visits (s ! 0)" .
next
  assume "0 \<le> max_iterations options \<and> (max_time options < 0 \<or> use_openmp)"
  then have "0 \<le> max_iterations options" "max_time options < 0 \<or> use_openmp"
    by simp_all
  from compute_tree_bounded[OF this, where fp = fp and el = elapsed and draw = draw
      and rs = root_state and seed = seed]
  show "\<exists>s. compute_tree fp use_openmp elapsed draw root_state options seed = Some (Inr s)"
    by blast
qed

theorem root_children_visits_conserved_witness:
  "\<forall>fp. get_moves (GomokuState_new 3) \<noteq> []
     \<and> (\<exists>s. compute_tree fp True (\<lambda>i. 0) (\<lambda>g n. (g, g + 1)) (GomokuState_new 3)
              (ComputeOptions_new\<lparr> max_iterations := 3 \<rparr>) (0::nat) = Some (Inr s)
           \<and> root_children_visits s = visits (s ! 0) \<and> visits (s ! 0) = 3)"
proof
  fix fp
  have a: "get_moves (GomokuState_new 3) \<noteq> []"
    using empty_board_moves by auto
  from compute_tree_visits[of "ComputeOptions_new\<lparr> max_iterations := 3 \<rparr>" True fp "\<lambda>i. 0"
      "\<lambda>g n. (g, g + 1)" "GomokuState_new 3" "0::nat"]
  obtain s where s: "compute_tree fp True (\<lambda>i. 0) (\<lambda>g n. (g, g + 1)) (GomokuState_new 3)
              (ComputeOptions_new\<lparr> max_iterations := 3 \<rparr>) (0::nat) = Some (Inr s)"
    "visits (s ! 0) = 3"
    by (auto simp: ComputeOptions_new_def)
  from root_children_visits_conserved[OF a, of fp True "\<lambda>i. 0" "\<lambda>g n. (g, g + 1)"
      "ComputeOptions_new\<lparr> max_iterations := 3 \<rparr>" "0::nat"]
  have "\<forall>s. compute_tree fp True (\<lambda>i. 0) (\<lambda>g n. (g, g + 1)) (GomokuState_new 3)
              (ComputeOptions_new\<lparr> max_iterations := 3 \<rparr>) (0::nat) = Some (Inr s)
              \<longrightarrow> root_children_visits s = visits (s ! 0)"
    by (rule conjunct1)
  with s(1) have "root_children_visits s = visits (s ! 0)" by blast
  with a s show "get_moves (GomokuState_new 3) \<noteq> []
     \<and> (\<exists>s. compute_tree fp True (\<lambda>i. 0) (\<lambda>g n. (g, g + 1)) (GomokuState_new 3)
              (ComputeOptions_new\<lparr> max_iterations := 3 \<rparr>) (0::nat) = Some (Inr s)
           \<and> root_children_visits s = visits (s ! 0) \<and> visits (s ! 0) = 3)"
    by blast
qed

end
